theory Spec2Isabelle
  imports Complex_Main "HOL-Library.Multiset"
begin

section \<open>The DOM shared by the two components\<close>

text \<open>
  Both source files are browser glue: they query a DOM tree, flip attributes and classes,
  move nodes and register callbacks. The DOM is a tree of elements. An element reference
  held in a JavaScript variable is the element's identity \<open>eid\<close>; the element's own
  data (tag, classes, attributes, inline style, listeners, the \<open>disabled\<close> property) is
  a record. Every exception the source can raise is a value of \<open>js_error\<close>.
\<close>

datatype js_error = TypeError | HierarchyRequestError

text \<open>
  The closures the components register as event listeners. \<open>CloseFn n\<close> is the \<open>n\<close>-th
  arrow function \<open>() => this.close()\<close> created by the drawer: each evaluation of the arrow
  expression is a new function object.
\<close>

datatype listener =
    OnKeyUp
  | CloseFn nat
  | ScrollPrev
  | ScrollNext
  | SwitchTo nat
  | OnScroll
  | OnResize

record node =
  tagName :: string
  classList :: "string list"
  attributes :: "(string \<times> string) list"
  inlineStyle :: "(string \<times> string) list"
  listeners :: "(string \<times> listener) list"
  disabled :: bool

datatype element = Element (eid: nat) (self: node) (childNodes: "element list")

text \<open>All elements of a subtree in document order (pre-order), the root first.\<close>

fun nodes :: "element \<Rightarrow> element list" where
  "nodes (Element i p ks) = Element i p ks # concat (map nodes ks)"

definition descendants :: "element \<Rightarrow> element list" where
  "descendants e = concat (map nodes (childNodes e))"

definition ids :: "element \<Rightarrow> nat list" where
  "ids e = map eid (nodes e)"

definition getElement :: "element \<Rightarrow> nat \<Rightarrow> element option" where
  "getElement doc i = find (\<lambda>e. eid e = i) (nodes doc)"

text \<open>The selectors the source uses: a tag, a class, an attribute value, a selector list.\<close>

datatype selector =
    Tag string
  | Class string
  | AttrEq string string
  | Either selector selector

fun matches :: "selector \<Rightarrow> node \<Rightarrow> bool" where
  "matches (Tag t) p = (tagName p = t)"
| "matches (Class c) p = (c \<in> set (classList p))"
| "matches (AttrEq k v) p = (map_of (attributes p) k = Some v)"
| "matches (Either a b) p = (matches a p \<or> matches b p)"

text \<open>\<open>root.querySelector(sel)\<close>: the first proper descendant of \<open>root\<close> in document order
  that matches, or null.\<close>

definition firstMatch :: "selector \<Rightarrow> element \<Rightarrow> nat option" where
  "firstMatch sel e = map_option eid (find (\<lambda>x. matches sel (self x)) (descendants e))"

definition querySelector :: "element \<Rightarrow> nat \<Rightarrow> selector \<Rightarrow> nat option" where
  "querySelector doc scope sel =
     (case getElement doc scope of None \<Rightarrow> None | Some e \<Rightarrow> firstMatch sel e)"

definition querySelectorAll :: "element \<Rightarrow> nat \<Rightarrow> selector \<Rightarrow> nat list" where
  "querySelectorAll doc scope sel =
     (case getElement doc scope of
        None \<Rightarrow> []
      | Some e \<Rightarrow> map eid (filter (\<lambda>x. matches sel (self x)) (descendants e)))"

text \<open>The path from the root of the document down to an element (empty when the element is
  not in the document), and \<open>el.closest(sel)\<close>: the nearest inclusive ancestor that matches.\<close>

fun firstNonEmpty :: "'a list list \<Rightarrow> 'a list" where
  "firstNonEmpty [] = []"
| "firstNonEmpty (x # xs) = (if x = [] then firstNonEmpty xs else x)"

fun pathTo :: "nat \<Rightarrow> element \<Rightarrow> element list" where
  "pathTo i (Element j p ks) =
     (if j = i then [Element j p ks]
      else (case firstNonEmpty (map (pathTo i) ks) of
              [] \<Rightarrow> []
            | q # qs \<Rightarrow> Element j p ks # q # qs))"

definition closest :: "element \<Rightarrow> nat \<Rightarrow> selector \<Rightarrow> nat option" where
  "closest doc i sel = map_option eid (find (\<lambda>x. matches sel (self x)) (rev (pathTo i doc)))"

subsection \<open>Reading and writing one element\<close>

fun modify :: "nat \<Rightarrow> (node \<Rightarrow> node) \<Rightarrow> element \<Rightarrow> element" where
  "modify i f (Element j p ks) = Element j (if j = i then f p else p) (map (modify i f) ks)"

fun assign :: "string \<Rightarrow> string \<Rightarrow> (string \<times> string) list \<Rightarrow> (string \<times> string) list" where
  "assign k v [] = [(k, v)]"
| "assign k v ((a, b) # xs) = (if a = k then (k, v) # xs else (a, b) # assign k v xs)"

definition setAttribute :: "nat \<Rightarrow> string \<Rightarrow> string \<Rightarrow> element \<Rightarrow> element" where
  "setAttribute i k v = modify i (\<lambda>p. p\<lparr>attributes := assign k v (attributes p)\<rparr>)"

definition removeAttribute :: "nat \<Rightarrow> string \<Rightarrow> element \<Rightarrow> element" where
  "removeAttribute i k = modify i (\<lambda>p. p\<lparr>attributes := filter (\<lambda>kv. fst kv \<noteq> k) (attributes p)\<rparr>)"

definition classList_add :: "nat \<Rightarrow> string \<Rightarrow> element \<Rightarrow> element" where
  "classList_add i c =
     modify i (\<lambda>p. p\<lparr>classList := (if c \<in> set (classList p) then classList p else classList p @ [c])\<rparr>)"

definition classList_remove :: "nat \<Rightarrow> string \<Rightarrow> element \<Rightarrow> element" where
  "classList_remove i c = modify i (\<lambda>p. p\<lparr>classList := filter (\<lambda>x. x \<noteq> c) (classList p)\<rparr>)"

definition setStyle :: "nat \<Rightarrow> string \<Rightarrow> string \<Rightarrow> element \<Rightarrow> element" where
  "setStyle i k v = modify i (\<lambda>p. p\<lparr>inlineStyle := assign k v (inlineStyle p)\<rparr>)"

definition setDisabled :: "nat \<Rightarrow> bool \<Rightarrow> element \<Rightarrow> element" where
  "setDisabled i b = modify i (\<lambda>p. p\<lparr>disabled := b\<rparr>)"

text \<open>\<open>addEventListener\<close> ignores a listener that is already registered for the type.\<close>

definition addEventListener :: "nat \<Rightarrow> string \<Rightarrow> listener \<Rightarrow> element \<Rightarrow> element" where
  "addEventListener i ty l =
     modify i (\<lambda>p. p\<lparr>listeners := (if (ty, l) \<in> set (listeners p) then listeners p
                                     else listeners p @ [(ty, l)])\<rparr>)"

definition removeEventListener :: "nat \<Rightarrow> string \<Rightarrow> listener \<Rightarrow> element \<Rightarrow> element" where
  "removeEventListener i ty l = modify i (\<lambda>p. p\<lparr>listeners := filter (\<lambda>x. x \<noteq> (ty, l)) (listeners p)\<rparr>)"

definition getAttribute :: "element \<Rightarrow> nat \<Rightarrow> string \<Rightarrow> string option" where
  "getAttribute doc i k =
     (case getElement doc i of None \<Rightarrow> None | Some e \<Rightarrow> map_of (attributes (self e)) k)"

definition hasAttribute :: "element \<Rightarrow> nat \<Rightarrow> string \<Rightarrow> bool" where
  "hasAttribute doc i k = (getAttribute doc i k \<noteq> None)"

definition hasClass :: "element \<Rightarrow> nat \<Rightarrow> string \<Rightarrow> bool" where
  "hasClass doc i c =
     (case getElement doc i of None \<Rightarrow> False | Some e \<Rightarrow> c \<in> set (classList (self e)))"

text \<open>An inline style property that was never set reads as the empty string.\<close>

definition getStyle :: "element \<Rightarrow> nat \<Rightarrow> string \<Rightarrow> string" where
  "getStyle doc i k =
     (case getElement doc i of
        None \<Rightarrow> []
      | Some e \<Rightarrow> (case map_of (inlineStyle (self e)) k of None \<Rightarrow> [] | Some v \<Rightarrow> v))"

definition isDisabled :: "element \<Rightarrow> nat \<Rightarrow> bool" where
  "isDisabled doc i = (case getElement doc i of None \<Rightarrow> False | Some e \<Rightarrow> disabled (self e))"

definition listenersOf :: "element \<Rightarrow> nat \<Rightarrow> string \<Rightarrow> listener list" where
  "listenersOf doc i ty =
     (case getElement doc i of
        None \<Rightarrow> []
      | Some e \<Rightarrow> map snd (filter (\<lambda>x. fst x = ty) (listeners (self e))))"

definition childIds :: "element \<Rightarrow> nat \<Rightarrow> nat list" where
  "childIds doc i = (case getElement doc i of None \<Rightarrow> [] | Some e \<Rightarrow> map eid (childNodes e))"

subsection \<open>Moving, replacing and cloning subtrees\<close>

fun prune :: "nat \<Rightarrow> element \<Rightarrow> element" where
  "prune c (Element j p ks) = Element j p (map (prune c) (filter (\<lambda>k. eid k \<noteq> c) ks))"

fun attach :: "nat \<Rightarrow> element \<Rightarrow> element \<Rightarrow> element" where
  "attach t c (Element j p ks) = Element j p (map (attach t c) ks @ (if j = t then [c] else []))"

text \<open>
  \<open>parent.appendChild(child)\<close>: a null child is a TypeError; a child that contains the
  parent is a HierarchyRequestError; otherwise the child leaves its old place and becomes
  the last child of the parent. Every reference the components hold comes from a query of
  the document and nothing modelled here detaches an element they query again, so a child
  outside the document does not occur; the document is left as it is then.
\<close>

definition appendChild :: "nat \<Rightarrow> nat option \<Rightarrow> element \<Rightarrow> js_error + element" where
  "appendChild parent child doc =
     (case child of
        None \<Rightarrow> Inl TypeError
      | Some c \<Rightarrow>
          (case getElement doc c of
             None \<Rightarrow> Inr doc
           | Some ce \<Rightarrow>
               if parent \<in> set (ids ce) then Inl HierarchyRequestError
               else Inr (attach parent ce (prune c doc))))"

text \<open>\<open>old.replaceWith(new)\<close> for a detached \<open>new\<close>; an element without a parent stays.\<close>

fun replaceWith :: "nat \<Rightarrow> element \<Rightarrow> element \<Rightarrow> element" where
  "replaceWith old new (Element j p ks) =
     Element j p (map (\<lambda>k. if eid k = old then new else replaceWith old new k) ks)"

text \<open>\<open>el.cloneNode(true)\<close>: a detached copy of the subtree with new identities (here the
  old identity shifted by an offset beyond every identity in use) and without listeners.\<close>

fun cloneNode :: "nat \<Rightarrow> element \<Rightarrow> element" where
  "cloneNode off (Element j p ks) = Element (off + j) (p\<lparr>listeners := []\<rparr>) (map (cloneNode off) ks)"


subsection \<open>What the browser supplies\<close>

text \<open>
  Layout is the browser's: the component reads it when it runs. Per element, the left and
  right edge of \<open>getBoundingClientRect()\<close>, \<open>scrollLeft\<close>, \<open>scrollWidth\<close>,
  \<open>clientWidth\<close> and \<open>offsetWidth\<close>. Pixel values are exact numbers here (the
  comparisons of the source are exact on doubles as well; rounding in sums is not modelled).
  A smooth \<open>scrollBy\<close> only files a request with the browser: the requests are logged, in
  order, as (element, left offset).
\<close>

record metrics =
  rectLeft :: real
  rectRight :: real
  scrollLeft :: real
  scrollWidth :: int
  clientWidth :: int
  offsetWidth :: int

record browser =
  doc :: element
  nextId :: nat
  layout :: "nat \<Rightarrow> metrics"
  computedStyle :: "nat \<Rightarrow> string \<Rightarrow> string option"
  scrollRequests :: "(nat \<times> real) list"
  windowListeners :: "(string \<times> listener) list"

text \<open>\<open>getComputedStyle(el).getPropertyValue(name)\<close>: the empty string for a property
  that is not set.\<close>

definition getPropertyValue :: "(string \<Rightarrow> string option) \<Rightarrow> string \<Rightarrow> string" where
  "getPropertyValue st name = (case st name of None \<Rightarrow> [] | Some v \<Rightarrow> v)"

subsection \<open>Numbers and strings of JavaScript\<close>

text \<open>The white space \<open>parseInt\<close> skips, as far as it is a single byte.\<close>

definition isWhiteSpace :: "char \<Rightarrow> bool" where
  "isWhiteSpace c = (c \<in> set [CHR '' '', CHR 0x09, CHR 0x0A, CHR 0x0B, CHR 0x0C, CHR 0x0D])"

definition isDigit :: "char \<Rightarrow> bool" where
  "isDigit c = (48 \<le> (of_char c :: nat) \<and> (of_char c :: nat) \<le> 57)"

text \<open>The value of a character as a digit of the given radix, if it is one.\<close>

definition digitValue :: "nat \<Rightarrow> char \<Rightarrow> nat option" where
  "digitValue radix c =
     (let n = of_char c :: nat;
          v = (if 48 \<le> n \<and> n \<le> 57 then Some (n - 48)
               else if 97 \<le> n \<and> n \<le> 122 then Some (n - 87)
               else if 65 \<le> n \<and> n \<le> 90 then Some (n - 55)
               else None)
      in case v of None \<Rightarrow> None | Some d \<Rightarrow> if d < radix then Some d else None)"

definition digitsValue :: "nat \<Rightarrow> string \<Rightarrow> nat" where
  "digitsValue radix ds = foldl (\<lambda>acc c. acc * radix + the (digitValue radix c)) 0 ds"

text \<open>
  \<open>parseInt(s)\<close> with no radix argument: skip white space, read a sign, recognise the
  prefix \<open>0x\<close>/\<open>0X\<close> as radix 16, read the longest run of digits; \<open>None\<close> is NaN (no
  digit). Integers are unbounded here; a double is exact up to \<open>2^53\<close>.
\<close>

definition parseInt :: "string \<Rightarrow> int option" where
  "parseInt s =
     (let t = dropWhile isWhiteSpace s;
          negative = (t \<noteq> [] \<and> hd t = CHR ''-'');
          t1 = (if t \<noteq> [] \<and> (hd t = CHR ''-'' \<or> hd t = CHR ''+'') then tl t else t);
          hex = (take 2 t1 = ''0x'' \<or> take 2 t1 = ''0X'');
          radix = (if hex then 16 else 10);
          t2 = (if hex then drop 2 t1 else t1);
          ds = takeWhile (\<lambda>c. digitValue radix c \<noteq> None) t2
      in if ds = [] then None
         else Some ((if negative then - 1 else 1) * int (digitsValue radix ds)))"

text \<open>\<open>x || d\<close> for a number \<open>x\<close>: NaN and zero are falsy.\<close>

definition orDefault :: "int option \<Rightarrow> int \<Rightarrow> int" where
  "orDefault x d = (case x of None \<Rightarrow> d | Some n \<Rightarrow> if n = 0 then d else n)"

text \<open>\<open>String(n)\<close> for an integer.\<close>

fun showNat :: "nat \<Rightarrow> string" where
  "showNat n =
     (if n < 10 then [''0123456789'' ! n] else showNat (n div 10) @ [''0123456789'' ! (n mod 10)])"

declare showNat.simps [simp del]

definition showInt :: "int \<Rightarrow> string" where
  "showInt i = (if i < 0 then CHR ''-'' # showNat (nat (- i)) else showNat (nat i))"

text \<open>\<open>s.replace(/\/open\/\d+/, '/open/' + r)\<close>: the first place where \<open>/open/\<close> is
  followed by a digit; the whole run of digits is replaced.\<close>

fun replaceOpen :: "string \<Rightarrow> string \<Rightarrow> string" where
  "replaceOpen r [] = []"
| "replaceOpen r (c # cs) =
     (if take 6 (c # cs) = ''/open/'' \<and> drop 6 (c # cs) \<noteq> [] \<and> isDigit (hd (drop 6 (c # cs)))
      then ''/open/'' @ r @ dropWhile isDigit (drop 6 (c # cs))
      else c # replaceOpen r cs)"

text \<open>A JavaScript number that holds the result of a division.\<close>

datatype jsnum = Num int | PosInfinity | NaN

text \<open>\<open>xs[i]\<close> on an array-like: undefined outside the range.\<close>

definition item :: "'a list \<Rightarrow> int \<Rightarrow> 'a option" where
  "item xs i = (if 0 \<le> i \<and> i < int (length xs) then Some (xs ! nat i) else None)"


section \<open>The product media gallery (class ProductMediaGalleryMainThumbnails)\<close>

text \<open>The fields of the class; the browser's state is threaded with it.\<close>

record gallery = browser +
  container :: nat
  mainImageContainer :: "nat option"
  thumbnailCarousel :: "nat option"
  thumbnailWrapper :: "nat option"
  thumbnailItems :: "nat list"
  prevBtn :: "nat option"
  nextBtn :: "nat option"
  hiddenMedia :: "nat option"
  currentIndex :: int
  thumbnailsPerView :: jsnum
  thumbnailSize :: int
  thumbnailGap :: int

definition scrollBy :: "nat \<Rightarrow> real \<Rightarrow> gallery \<Rightarrow> gallery" where
  "scrollBy el left g = g\<lparr>scrollRequests := scrollRequests g @ [(el, left)]\<rparr>"

definition setupThumbnailNavigation :: "gallery \<Rightarrow> gallery" where
  "setupThumbnailNavigation g =
     (let g1 = (case prevBtn g of
                  None \<Rightarrow> g
                | Some b \<Rightarrow> g\<lparr>doc := addEventListener b ''click'' ScrollPrev (doc g)\<rparr>)
      in case nextBtn g1 of
           None \<Rightarrow> g1
         | Some b \<Rightarrow> g1\<lparr>doc := addEventListener b ''click'' ScrollNext (doc g1)\<rparr>)"

definition setupScrollListener :: "gallery \<Rightarrow> gallery" where
  "setupScrollListener g =
     (case thumbnailWrapper g of
        None \<Rightarrow> g
      | Some w \<Rightarrow> g\<lparr>doc := addEventListener w ''scroll'' OnScroll (doc g)\<rparr>)"

text \<open>The \<open>forEach\<close> over the thumbnails, with the running index.\<close>

fun bindThumbnails :: "nat \<Rightarrow> nat list \<Rightarrow> element \<Rightarrow> element" where
  "bindThumbnails index [] d = d"
| "bindThumbnails index (it # its) d =
     bindThumbnails (Suc index) its
       (case querySelector d it (Class ''thumbnail-btn'') of
          None \<Rightarrow> d
        | Some button \<Rightarrow> addEventListener button ''click'' (SwitchTo index) d)"

definition setupMainImageSwitching :: "gallery \<Rightarrow> gallery" where
  "setupMainImageSwitching g = g\<lparr>doc := bindThumbnails 0 (thumbnailItems g) (doc g)\<rparr>"

definition updateNavigationState :: "gallery \<Rightarrow> js_error + gallery" where
  "updateNavigationState g =
     (case prevBtn g of
        None \<Rightarrow> Inr g
      | Some p \<Rightarrow>
          (case nextBtn g of
             None \<Rightarrow> Inr g
           | Some n \<Rightarrow>
               (case thumbnailWrapper g of
                  None \<Rightarrow> Inl TypeError
                | Some w \<Rightarrow>
                    let left = scrollLeft (layout g w);
                        maxScroll = scrollWidth (layout g w) - clientWidth (layout g w)
                    in Inr (g\<lparr>doc := setDisabled n (left \<ge> real_of_int (maxScroll - 1))
                                        (setDisabled p (left \<le> 0) (doc g))\<rparr>))))"

definition setThumbnailContainerAttributes :: "gallery \<Rightarrow> gallery" where
  "setThumbnailContainerAttributes g =
     (case querySelector (doc g) (container g) (Class ''thumbnail-carousel-container'') of
        None \<Rightarrow> g
      | Some carouselContainer \<Rightarrow>
          g\<lparr>doc := setAttribute carouselContainer ''data-items-count''
                      (showInt (int (length (thumbnailItems g)))) (doc g)\<rparr>)"



definition ensureThumbnailVisible :: "gallery \<Rightarrow> int \<Rightarrow> js_error + gallery" where
  "ensureThumbnailVisible g index =
     (case item (thumbnailItems g) index of
        None \<Rightarrow> Inr g
      | Some thumbnail \<Rightarrow>
          (case thumbnailWrapper g of
             None \<Rightarrow> Inl TypeError
           | Some w \<Rightarrow>
               let containerRect = layout g w;
                   thumbnailRect = layout g thumbnail
               in if rectLeft thumbnailRect < rectLeft containerRect
                  then Inr (scrollBy w (rectLeft thumbnailRect - rectLeft containerRect - 10) g)
                  else if rectRight thumbnailRect > rectRight containerRect
                  then Inr (scrollBy w (rectRight thumbnailRect - rectRight containerRect + 10) g)
                  else Inr g))"

text \<open>Lines 69 to 71 of \<open>switchMainImage\<close>: the active marker moves to the new thumbnail.\<close>

definition markActive :: "gallery \<Rightarrow> int \<Rightarrow> element" where
  "markActive g index =
     (let d1 = (case item (thumbnailItems g) (currentIndex g) of
                  None \<Rightarrow> doc g
                | Some t \<Rightarrow> classList_remove t ''active'' (doc g))
      in case item (thumbnailItems g) index of
           None \<Rightarrow> d1
         | Some t \<Rightarrow> classList_add t ''active'' d1)"

text \<open>Lines 91 to 99: the zoom button found before the replacement is pointed at the new
  index. An empty \<open>on:click\<close> attribute is falsy and left alone.\<close>

definition retargetZoom :: "nat option \<Rightarrow> int \<Rightarrow> element \<Rightarrow> element" where
  "retargetZoom existingZoomButton index d =
     (case existingZoomButton of
        None \<Rightarrow> d
      | Some z \<Rightarrow>
          let d1 = (case getAttribute d z ''on:click'' of
                      None \<Rightarrow> d
                    | Some onClickAttr \<Rightarrow>
                        if onClickAttr = [] then d
                        else setAttribute z ''on:click'' (replaceOpen (showInt index) onClickAttr) d)
          in setAttribute z ''data-current-index'' (showInt index) d1)"

definition contentSelector :: selector where
  "contentSelector = Either (Class ''product-media-constraint-wrapper'') (Class ''product-media'')"

text \<open>Lines 74 to 100: the main image is switched. The result is the document and the
  next free identity (the clone takes new ones).\<close>

definition switchMedia :: "gallery \<Rightarrow> int \<Rightarrow> element \<Rightarrow> js_error + element \<times> nat" where
  "switchMedia g index d =
     (case hiddenMedia g of
        None \<Rightarrow> Inl TypeError
      | Some hm \<Rightarrow>
          (case querySelector d hm (AttrEq ''data-media-index'' (showInt index)) of
             None \<Rightarrow> Inr (d, nextId g)
           | Some newMediaElement \<Rightarrow>
               (case mainImageContainer g of
                  None \<Rightarrow> Inr (d, nextId g)
                | Some mic \<Rightarrow>
                    let mainImageContent = querySelector d mic (Class ''product-media-container'');
                        newContent = map_option (cloneNode (nextId g)) (getElement d newMediaElement);
                        fresh = 2 * nextId g
                    in (case mainImageContent of
                          None \<Rightarrow> Inl TypeError
                        | Some mc \<Rightarrow>
                            let existingZoomButton =
                                  querySelector d mc (Class ''product-media-container__zoom-button'');
                                mediaContent = querySelector d mc contentSelector;
                                d1 = (case mediaContent of
                                        None \<Rightarrow> d
                                      | Some old \<Rightarrow>
                                          (case newContent of
                                             None \<Rightarrow> d
                                           | Some nc \<Rightarrow>
                                               (case find (\<lambda>x. matches contentSelector (self x))
                                                       (descendants nc) of
                                                  None \<Rightarrow> d
                                                | Some newMediaContent \<Rightarrow>
                                                    replaceWith old newMediaContent d)))
                            in Inr (retargetZoom existingZoomButton index d1, fresh)))))"

definition switchMainImage :: "gallery \<Rightarrow> int \<Rightarrow> js_error + gallery" where
  "switchMainImage g index =
     (if index = currentIndex g then Inr g
      else (case switchMedia g index (markActive g index) of
              Inl e \<Rightarrow> Inl e
            | Inr (d, fresh) \<Rightarrow>
                ensureThumbnailVisible (g\<lparr>doc := d, nextId := fresh, currentIndex := index\<rparr>) index))"


definition init :: "gallery \<Rightarrow> js_error + gallery" where
  "init g =
     (case updateNavigationState (setupScrollListener (setupMainImageSwitching (setupThumbnailNavigation g))) of
        Inl e \<Rightarrow> Inl e
      | Inr g1 \<Rightarrow>
          let g2 = setThumbnailContainerAttributes g1
          in Inr (g2\<lparr>windowListeners := windowListeners g2 @ [(''resize'', OnResize)]\<rparr>))"

text \<open>The constructor, for a browser state and the gallery's root element.\<close>

definition cssInt :: "browser \<Rightarrow> nat \<Rightarrow> string \<Rightarrow> int option" where
  "cssInt b el name = parseInt (getPropertyValue (computedStyle b el) name)"

definition constructor :: "browser \<Rightarrow> nat \<Rightarrow> js_error + gallery" where
  "constructor b c =
     init \<lparr>doc = doc b, nextId = nextId b, layout = layout b, computedStyle = computedStyle b,
           scrollRequests = scrollRequests b, windowListeners = windowListeners b,
           container = c,
           mainImageContainer = querySelector (doc b) c (Class ''main-image-container''),
           thumbnailCarousel = querySelector (doc b) c (Class ''thumbnail-carousel''),
           thumbnailWrapper = querySelector (doc b) c (Class ''thumbnail-carousel-wrapper''),
           thumbnailItems = querySelectorAll (doc b) c (Class ''thumbnail-item''),
           prevBtn = querySelector (doc b) c (Class ''thumbnail-nav-btn--prev''),
           nextBtn = querySelector (doc b) c (Class ''thumbnail-nav-btn--next''),
           hiddenMedia = querySelector (doc b) c (Class ''hidden-media''),
           currentIndex = 0,
           thumbnailsPerView = Num (orDefault (cssInt b c ''--thumbnails-per-view'') 3),
           thumbnailSize = orDefault (cssInt b c ''--thumbnail-size'') 100,
           thumbnailGap = orDefault (cssInt b c ''--thumbnail-gap'') 10\<rparr>"


section \<open>The size guide drawer (class SizeGuideDrawer)\<close>

text \<open>
  The closures the drawer hands to the browser, by the variables they capture:
  the arrow passed to \<open>requestAnimationFrame\<close> in \<open>open\<close> (details, drawer), the arrow
  \<open>() => trapFocus(this.#drawerWrapper || details)\<close> (details), and the arrow that
  \<open>#close\<close> passes to \<open>onAnimationEnd\<close> (details, drawer, backdrop).
\<close>

datatype callback =
    OpenFrame nat "nat option"
  | OpenTrapFocus nat
  | CloseFinish nat "nat option" "nat option"

text \<open>
  The fields of the component: \<open>host\<close> is the custom element (\<open>this\<close>), \<open>details_ref\<close> is
  \<open>this.refs.details\<close>, \<open>nextFn\<close> numbers the arrow functions created so far. The
  callbacks waiting in the browser are part of the state: the animation frame queue, and
  the continuations registered with \<open>onAnimationEnd\<close>, each with the element it waits on.
\<close>

record drawer = browser +
  host :: nat
  details_ref :: nat
  drawerWrapper :: "nat option"
  boundBackdropClick :: "listener option"
  boundCloseClick :: "listener option"
  nextFn :: nat
  frameCallbacks :: "callback list"
  animationCallbacks :: "(nat \<times> callback) list"
  focusTrap :: "nat option"

text \<open>\<open>document.body\<close> is the root of the document.\<close>

definition body :: "drawer \<Rightarrow> nat" where
  "body s = eid (doc s)"

definition requestAnimationFrame :: "callback \<Rightarrow> drawer \<Rightarrow> drawer" where
  "requestAnimationFrame cb s = s\<lparr>frameCallbacks := frameCallbacks s @ [cb]\<rparr>"

text \<open>
  Modelled from the spec: \<open>onAnimationEnd\<close> of \<open>@theme/utilities\<close> is not among the
  sources. The spec has it register a continuation that fires on the
  animation-completion event of the element, with no timeout; until then it is pending.
\<close>

definition onAnimationEnd :: "nat \<Rightarrow> callback \<Rightarrow> drawer \<Rightarrow> drawer" where
  "onAnimationEnd el cb s = s\<lparr>animationCallbacks := animationCallbacks s @ [(el, cb)]\<rparr>"

text \<open>
  Modelled from the spec: \<open>trapFocus\<close> and \<open>removeTrapFocus\<close> of \<open>@theme/focus\<close> are not
  among the sources. The spec has them trap keyboard focus within an element and release
  the trap.
\<close>

definition trapFocus :: "nat \<Rightarrow> drawer \<Rightarrow> drawer" where
  "trapFocus el s = s\<lparr>focusTrap := Some el\<rparr>"

definition removeTrapFocus :: "drawer \<Rightarrow> drawer" where
  "removeTrapFocus s = s\<lparr>focusTrap := None\<rparr>"

definition wrapperNode :: node where
  "wrapperNode =
     \<lparr>tagName = ''div'', classList = [''size-guide-drawer-wrapper''], attributes = [],
      inlineStyle = [(''position'', ''fixed''), (''top'', ''0''), (''left'', ''0''), (''width'', ''0''),
                     (''height'', ''0''), (''z-index'', ''9999''), (''pointer-events'', ''none'')],
      listeners = [], disabled = False\<rparr>"

definition createDrawerWrapper :: "drawer \<Rightarrow> drawer" where
  "createDrawerWrapper s =
     s\<lparr>drawerWrapper := Some (nextId s),
       nextId := Suc (nextId s),
       doc := attach (body s) (Element (nextId s) wrapperNode []) (doc s)\<rparr>"

definition connectedCallback :: "drawer \<Rightarrow> drawer" where
  "connectedCallback s =
     createDrawerWrapper (s\<lparr>doc := addEventListener (host s) ''keyup'' OnKeyUp (doc s)\<rparr>)"

definition isOpen :: "drawer \<Rightarrow> bool" where
  "isOpen s = hasAttribute (doc s) (details_ref s) ''open''"

text \<open>The event is given by its target, \<open>None\<close> when there is no event or its target is
  not an element.\<close>

definition getDetailsElement :: "drawer \<Rightarrow> nat option \<Rightarrow> nat" where
  "getDetailsElement s event =
     (case event of
        None \<Rightarrow> details_ref s
      | Some target \<Rightarrow>
          (case closest (doc s) target (Tag ''details'') of
             None \<Rightarrow> details_ref s
           | Some d \<Rightarrow> d))"

text \<open>Lines 106 to 121 of \<open>open\<close>: the drawer and the backdrop move to the wrapper and get
  their click handlers.\<close>

definition relocate :: "drawer \<Rightarrow> nat \<Rightarrow> nat \<Rightarrow> nat option \<Rightarrow> js_error + drawer" where
  "relocate s w drawerEl backdrop =
     (case appendChild w backdrop (setStyle w ''pointer-events'' ''auto'' (doc s)) of
        Inl e \<Rightarrow> Inl e
      | Inr d1 \<Rightarrow>
          (case appendChild w (Some drawerEl) d1 of
             Inl e \<Rightarrow> Inl e
           | Inr d2 \<Rightarrow>
               let s1 = (case backdrop of
                           None \<Rightarrow> s\<lparr>doc := d2\<rparr>
                         | Some b \<Rightarrow>
                             s\<lparr>doc := addEventListener b ''click'' (CloseFn (nextFn s)) d2,
                               boundBackdropClick := Some (CloseFn (nextFn s)),
                               nextFn := Suc (nextFn s)\<rparr>)
               in (case querySelector (doc s1) drawerEl (Class ''size-guide-drawer__close-button'') of
                     None \<Rightarrow> Inr s1
                   | Some closeButton \<Rightarrow>
                       Inr (s1\<lparr>doc := addEventListener closeButton ''click'' (CloseFn (nextFn s1)) (doc s1),
                                boundCloseClick := Some (CloseFn (nextFn s1)),
                                nextFn := Suc (nextFn s1)\<rparr>))))"

text \<open>\<open>open(event)\<close>. An exception leaves the call at once; the state at that point is not
  kept in the result.\<close>

definition open_drawer :: "drawer \<Rightarrow> nat option \<Rightarrow> js_error + drawer" where
  "open_drawer s event =
     (let details = getDetailsElement s event
      in case querySelector (doc s) details (Tag ''summary'') of
           None \<Rightarrow> Inr s
         | Some summary \<Rightarrow>
             let s1 = s\<lparr>doc := setStyle (body s) ''overflow'' ''hidden''
                                 (setAttribute details ''open'' []
                                   (setAttribute summary ''aria-expanded'' ''true'' (doc s)))\<rparr>;
                 drawerEl = querySelector (doc s1) details (Class ''size-guide-drawer'');
                 backdrop = querySelector (doc s1) details (Class ''size-guide-drawer__backdrop'');
                 moved = (case drawerWrapper s1 of
                            None \<Rightarrow> Inr s1
                          | Some w \<Rightarrow>
                              (case drawerEl of
                                 None \<Rightarrow> Inr s1
                               | Some dr \<Rightarrow> relocate s1 w dr backdrop))
             in case moved of
                  Inl e \<Rightarrow> Inl e
                | Inr s2 \<Rightarrow> Inr (requestAnimationFrame (OpenFrame details drawerEl) s2))"

text \<open>\<open>drawer || details\<close>.\<close>

definition orElse :: "nat option \<Rightarrow> nat \<Rightarrow> nat" where
  "orElse x d = (case x of None \<Rightarrow> d | Some y \<Rightarrow> y)"

text \<open>\<open>#close(details)\<close>.\<close>

definition close_details :: "drawer \<Rightarrow> nat \<Rightarrow> drawer" where
  "close_details s details =
     (let d1 = (case querySelector (doc s) details (Tag ''summary'') of
                  None \<Rightarrow> doc s
                | Some summary \<Rightarrow> setAttribute summary ''aria-expanded'' ''false'' (doc s));
          d2 = classList_remove details ''menu-open'' d1;
          d3 = (case drawerWrapper s of None \<Rightarrow> d2 | Some w \<Rightarrow> classList_remove w ''menu-open'' d2);
          d4 = setStyle (body s) ''overflow'' [] d3;
          drawerEl = (case drawerWrapper s of
                        None \<Rightarrow> None
                      | Some w \<Rightarrow> querySelector d4 w (Class ''size-guide-drawer''));
          backdrop = (case drawerWrapper s of
                        None \<Rightarrow> None
                      | Some w \<Rightarrow> querySelector d4 w (Class ''size-guide-drawer__backdrop''))
      in onAnimationEnd (orElse drawerEl details) (CloseFinish details drawerEl backdrop) (s\<lparr>doc := d4\<rparr>))"

text \<open>\<open>close()\<close>.\<close>

definition close_drawer :: "drawer \<Rightarrow> drawer" where
  "close_drawer s = close_details s (details_ref s)"

text \<open>\<open>#onKeyUp(event)\<close>, for the key and the target of the event.\<close>

definition onKeyUp :: "drawer \<Rightarrow> string \<Rightarrow> nat option \<Rightarrow> drawer" where
  "onKeyUp s key target =
     (if key \<noteq> ''Escape'' then s else close_details s (getDetailsElement s target))"

definition toggle :: "drawer \<Rightarrow> js_error + drawer" where
  "toggle s = (if isOpen s then Inr (close_drawer s) else open_drawer s None)"

text \<open>The function \<open>reset(element)\<close> at the end of the file.\<close>

definition reset :: "nat \<Rightarrow> element \<Rightarrow> element" where
  "reset element d =
     (let d1 = removeAttribute element ''open'' (classList_remove element ''menu-open'' d)
      in case querySelector d1 element (Tag ''summary'') of
           None \<Rightarrow> d1
         | Some summary \<Rightarrow> setAttribute summary ''aria-expanded'' ''false'' d1)"

text \<open>The arrow that \<open>#close\<close> registers (lines 162 to 182).\<close>

definition closeFinish :: "drawer \<Rightarrow> nat \<Rightarrow> nat option \<Rightarrow> nat option \<Rightarrow> js_error + drawer" where
  "closeFinish s details drawerEl backdrop =
     (let r1 = (case drawerEl of
                  None \<Rightarrow> Inr s
                | Some dr \<Rightarrow>
                    let d1 = (case querySelector (doc s) dr (Class ''size-guide-drawer__close-button'') of
                                None \<Rightarrow> doc s
                              | Some closeButton \<Rightarrow>
                                  (case boundCloseClick s of
                                     None \<Rightarrow> doc s
                                   | Some f \<Rightarrow> removeEventListener closeButton ''click'' f (doc s)))
                    in (case appendChild details (Some dr) d1 of
                          Inl e \<Rightarrow> Inl e
                        | Inr d2 \<Rightarrow> Inr (s\<lparr>doc := d2, boundCloseClick := None\<rparr>)))
      in case r1 of
           Inl e \<Rightarrow> Inl e
         | Inr s1 \<Rightarrow>
             let r2 = (case backdrop of
                         None \<Rightarrow> Inr s1
                       | Some b \<Rightarrow>
                           let d1 = (case boundBackdropClick s1 of
                                       None \<Rightarrow> doc s1
                                     | Some f \<Rightarrow> removeEventListener b ''click'' f (doc s1))
                           in (case appendChild details (Some b) d1 of
                                 Inl e \<Rightarrow> Inl e
                               | Inr d2 \<Rightarrow> Inr (s1\<lparr>doc := d2, boundBackdropClick := None\<rparr>)))
             in case r2 of
                  Inl e \<Rightarrow> Inl e
                | Inr s2 \<Rightarrow>
                    let d3 = (case drawerWrapper s2 of
                                None \<Rightarrow> doc s2
                              | Some w \<Rightarrow> setStyle w ''pointer-events'' ''none'' (doc s2))
                    in Inr (removeTrapFocus (s2\<lparr>doc := reset details d3\<rparr>)))"

text \<open>Running a callback the browser holds.\<close>

fun runCallback :: "drawer \<Rightarrow> callback \<Rightarrow> js_error + drawer" where
  "runCallback s (OpenFrame details drawerEl) =
     (let d1 = classList_add details ''menu-open'' (doc s);
          d2 = (case drawerWrapper s of None \<Rightarrow> d1 | Some w \<Rightarrow> classList_add w ''menu-open'' d1)
      in Inr (onAnimationEnd (orElse drawerEl details) (OpenTrapFocus details) (s\<lparr>doc := d2\<rparr>)))"
| "runCallback s (OpenTrapFocus details) = Inr (trapFocus (orElse (drawerWrapper s) details) s)"
| "runCallback s (CloseFinish details drawerEl backdrop) = closeFinish s details drawerEl backdrop"

text \<open>
  What can happen to the component: a call of a public method, a key released inside it,
  a click on an element, the next animation frame (the oldest waiting frame callback runs),
  and the completion of the animations awaited by the \<open>k\<close>-th pending continuation.
  A click runs the click listeners of the target in the order of their registration; the
  only ones the drawer registers are its close arrows.
\<close>

datatype event =
    Open "nat option"
  | Close
  | Toggle
  | KeyUp string "nat option"
  | Click nat
  | AnimationFrame
  | AnimationEnd nat

fun runClickListeners :: "drawer \<Rightarrow> listener list \<Rightarrow> drawer" where
  "runClickListeners s [] = s"
| "runClickListeners s (CloseFn n # ls) = runClickListeners (close_drawer s) ls"
| "runClickListeners s (l # ls) = runClickListeners s ls"

fun step :: "drawer \<Rightarrow> event \<Rightarrow> js_error + drawer" where
  "step s (Open target) = open_drawer s target"
| "step s Close = Inr (close_drawer s)"
| "step s Toggle = toggle s"
| "step s (KeyUp key target) = Inr (onKeyUp s key target)"
| "step s (Click target) = Inr (runClickListeners s (listenersOf (doc s) target ''click''))"
| "step s AnimationFrame =
     (case frameCallbacks s of
        [] \<Rightarrow> Inr s
      | cb # cbs \<Rightarrow> runCallback (s\<lparr>frameCallbacks := cbs\<rparr>) cb)"
| "step s (AnimationEnd k) =
     (if k < length (animationCallbacks s)
      then runCallback (s\<lparr>animationCallbacks := take k (animationCallbacks s) @ drop (Suc k) (animationCallbacks s)\<rparr>)
             (snd (animationCallbacks s ! k))
      else Inr s)"

fun run :: "drawer \<Rightarrow> event list \<Rightarrow> js_error + drawer" where
  "run s [] = Inr s"
| "run s (e # es) = (case step s e of Inl err \<Rightarrow> Inl err | Inr s1 \<Rightarrow> run s1 es)"


section \<open>Predicates of the statements\<close>

text \<open>An index is valid when it points into the thumbnail list.\<close>

definition validIndex :: "gallery \<Rightarrow> int \<Rightarrow> bool" where
  "validIndex g i = (0 \<le> i \<and> i < int (length (thumbnailItems g)))"

text \<open>A selector that does not test for the class \<open>c\<close>: adding or removing \<open>c\<close> on an
  element does not change what the selector matches.\<close>

fun avoidsClass :: "string \<Rightarrow> selector \<Rightarrow> bool" where
  "avoidsClass c (Tag t) = True"
| "avoidsClass c (Class x) = (x \<noteq> c)"
| "avoidsClass c (AttrEq k v) = True"
| "avoidsClass c (Either a b) = (avoidsClass c a \<and> avoidsClass c b)"


text \<open>The data of the element with a given identity, if it is in the document.\<close>

definition nodeOf :: "element \<Rightarrow> nat \<Rightarrow> node option" where
  "nodeOf d i = map_option self (getElement d i)"

text \<open>The identities in the subtree of an element, the element's own first.\<close>

definition subtreeIds :: "element \<Rightarrow> nat \<Rightarrow> nat list" where
  "subtreeIds d i = (case getElement d i of None \<Rightarrow> [] | Some e \<Rightarrow> ids e)"

text \<open>The identities that \<open>prune c\<close> takes out of a tree: those of the outermost subtrees
  rooted at \<open>c\<close> below the root.\<close>

fun removed :: "nat \<Rightarrow> element \<Rightarrow> nat list" where
  "removed c (Element j p ks) = concat (map (\<lambda>x. if eid x = c then ids x else removed c x) ks)"

text \<open>
  The effect of a successful \<open>parent.appendChild(child)\<close> on the document, and the condition
  under which it succeeds on a document whose identities are distinct: the child is in the
  document and is not its root, the parent is in the document and not inside the child.
\<close>

definition move :: "nat \<Rightarrow> nat \<Rightarrow> element \<Rightarrow> element" where
  "move p c d = (case getElement d c of None \<Rightarrow> d | Some ce \<Rightarrow> attach p ce (prune c d))"

definition movable :: "element \<Rightarrow> nat \<Rightarrow> nat \<Rightarrow> bool" where
  "movable d p c =
     (distinct (ids d) \<and> c \<in> set (ids d) \<and> c \<noteq> eid d \<and> p \<in> set (ids d) \<and> p \<notin> set (subtreeIds d c))"

text \<open>A selector without an attribute test: setting or removing an attribute does not
  change what it matches.\<close>

fun plain :: "selector \<Rightarrow> bool" where
  "plain (Tag t) = True"
| "plain (Class x) = True"
| "plain (AttrEq k v) = False"
| "plain (Either a b) = (plain a \<and> plain b)"

text \<open>
  The document in the Closed state of the drawer, for the details element \<open>dd\<close>, the
  wrapper \<open>w\<close>, the summary \<open>sm\<close>, the backdrop \<open>k\<close> and the drawer panel \<open>r\<close>: the
  identities of the document are distinct; the wrapper is in the document, outside the
  details element, and empty; the summary, the backdrop and the panel are three children of
  the details element and are what its queries find, the panel being its only
  \<open>.size-guide-drawer\<close>.
\<close>

definition closedDoc :: "element \<Rightarrow> nat \<Rightarrow> nat \<Rightarrow> nat \<Rightarrow> nat \<Rightarrow> nat \<Rightarrow> bool" where
  "closedDoc d dd w sm k r =
     (distinct (ids d)
      \<and> w \<in> set (ids d)
      \<and> childIds d w = []
      \<and> w \<notin> set (subtreeIds d dd)
      \<and> querySelector d dd (Tag ''summary'') = Some sm
      \<and> querySelector d dd (Class ''size-guide-drawer__backdrop'') = Some k
      \<and> querySelectorAll d dd (Class ''size-guide-drawer'') = [r]
      \<and> sm \<in> set (childIds d dd)
      \<and> k \<in> set (childIds d dd)
      \<and> r \<in> set (childIds d dd)
      \<and> distinct [sm, k, r])"

text \<open>
  The document in the Open state: the backdrop and the panel are the children of the
  wrapper, in this order, and what the wrapper's queries find; the details element keeps
  its summary and holds no \<open>.size-guide-drawer\<close>; the details element and the wrapper are
  outside each other.
\<close>

definition openedDoc :: "element \<Rightarrow> nat \<Rightarrow> nat \<Rightarrow> nat \<Rightarrow> nat \<Rightarrow> nat \<Rightarrow> bool" where
  "openedDoc d dd w sm k r =
     (distinct (ids d)
      \<and> childIds d w = [k, r]
      \<and> w \<notin> set (subtreeIds d dd)
      \<and> dd \<notin> set (subtreeIds d w)
      \<and> k \<notin> set (subtreeIds d dd)
      \<and> r \<notin> set (subtreeIds d dd)
      \<and> querySelector d dd (Tag ''summary'') = Some sm
      \<and> querySelectorAll d dd (Class ''size-guide-drawer'') = []
      \<and> querySelector d w (Class ''size-guide-drawer__backdrop'') = Some k
      \<and> querySelector d w (Class ''size-guide-drawer'') = Some r
      \<and> sm \<in> set (childIds d dd)
      \<and> distinct [sm, k, r])"

text \<open>The Closed state of the component: its document is closed around \<open>refs.details\<close> and
  its wrapper, and no callback is pending. The Open state likewise.\<close>

definition closedState :: "drawer \<Rightarrow> nat \<Rightarrow> nat \<Rightarrow> nat \<Rightarrow> nat \<Rightarrow> bool" where
  "closedState s w sm k r =
     (closedDoc (doc s) (details_ref s) w sm k r
      \<and> drawerWrapper s = Some w
      \<and> frameCallbacks s = []
      \<and> animationCallbacks s = [])"

definition openedState :: "drawer \<Rightarrow> nat \<Rightarrow> nat \<Rightarrow> nat \<Rightarrow> nat \<Rightarrow> bool" where
  "openedState s w sm k r =
     (openedDoc (doc s) (details_ref s) w sm k r \<and> drawerWrapper s = Some w)"

text \<open>The first element of the subtree of \<open>c\<close>, \<open>c\<close> included, that matches a selector.\<close>

definition matchIn :: "element \<Rightarrow> nat \<Rightarrow> selector \<Rightarrow> nat option" where
  "matchIn d c sel =
     (case nodeOf d c of
        None \<Rightarrow> None
      | Some n \<Rightarrow> if matches sel n then Some c else querySelector d c sel)"

text \<open>A change of an element's data that touches its listeners only.\<close>

definition onlyListeners :: "(node \<Rightarrow> node) \<Rightarrow> bool" where
  "onlyListeners f = (\<forall>p. \<exists>ls. f p = p\<lparr>listeners := ls\<rparr>)"









section \<open>Concrete pages\<close>

text \<open>
  The markup the two components are written for, as small documents: they are the inputs
  at which the theorems below are instantiated and at which the code is run.
\<close>

definition mkNode :: "string \<Rightarrow> string list \<Rightarrow> (string \<times> string) list \<Rightarrow> node" where
  "mkNode t cs as =
     \<lparr>tagName = t, classList = cs, attributes = as, inlineStyle = [], listeners = [], disabled = False\<rparr>"

text \<open>
  A gallery with two media. The children of the main display (element 2) are a parameter:
  the full shape, a \<open>.product-media-container\<close> that holds a zoom button but no content
  wrapper, and a main display without a \<open>.product-media-container\<close>.
\<close>

definition zoomButton :: element where
  "zoomButton =
     Element 5 (mkNode ''button'' [''product-media-container__zoom-button'']
                  [(''on:click'', ''/media-gallery/open/0'')]) []"

definition fullDisplay :: "element list" where
  "fullDisplay =
     [Element 3 (mkNode ''div'' [''product-media-container''] [])
        [Element 4 (mkNode ''div'' [''product-media''] []) [], zoomButton]]"

definition zoomOnlyDisplay :: "element list" where
  "zoomOnlyDisplay = [Element 3 (mkNode ''div'' [''product-media-container''] []) [zoomButton]]"

definition emptyDisplay :: "element list" where
  "emptyDisplay = []"

definition galleryPage :: "element list \<Rightarrow> element" where
  "galleryPage mainDisplay =
     Element 0 (mkNode ''body'' [] [])
       [Element 20 (mkNode ''div'' [''product-media-gallery--main-with-thumbnails''] [])
          [Element 2 (mkNode ''div'' [''main-image-container''] []) mainDisplay,
           Element 6 (mkNode ''div'' [''thumbnail-carousel-container''] [])
             [Element 7 (mkNode ''button'' [''thumbnail-nav-btn'', ''thumbnail-nav-btn--prev''] []) [],
              Element 8 (mkNode ''div'' [''thumbnail-carousel-wrapper''] [])
                [Element 9 (mkNode ''div'' [''thumbnail-carousel''] [])
                   [Element 10 (mkNode ''div'' [''thumbnail-item'', ''active''] [])
                      [Element 11 (mkNode ''button'' [''thumbnail-btn''] []) []],
                    Element 12 (mkNode ''div'' [''thumbnail-item''] [])
                      [Element 13 (mkNode ''button'' [''thumbnail-btn''] []) []]]],
              Element 14 (mkNode ''button'' [''thumbnail-nav-btn'', ''thumbnail-nav-btn--next''] []) []],
           Element 15 (mkNode ''div'' [''hidden-media''] [])
             [Element 16 (mkNode ''div'' [] [(''data-media-index'', ''0'')])
                [Element 17 (mkNode ''div'' [''product-media''] []) []],
              Element 18 (mkNode ''div'' [] [(''data-media-index'', ''1'')])
                [Element 19 (mkNode ''div'' [''product-media''] []) []]]]]"

text \<open>The strip is 300 pixels wide and scrolled to the start; the thumbnails are 100 wide
  with a gap of 10. In \<open>narrowLayout\<close> the strip is narrower than one thumbnail.\<close>

definition box :: "real \<Rightarrow> real \<Rightarrow> metrics" where
  "box l r = \<lparr>rectLeft = l, rectRight = r, scrollLeft = 0, scrollWidth = 0, clientWidth = 0, offsetWidth = 0\<rparr>"

definition galleryLayout :: "nat \<Rightarrow> metrics" where
  "galleryLayout i =
     (if i = 8 then \<lparr>rectLeft = 0, rectRight = 300, scrollLeft = 0, scrollWidth = 640,
                      clientWidth = 300, offsetWidth = 300\<rparr>
      else if i = 10 then box 0 100
      else if i = 12 then box 110 210
      else box 0 0)"

definition narrowLayout :: "nat \<Rightarrow> metrics" where
  "narrowLayout i =
     (if i = 8 then \<lparr>rectLeft = 0, rectRight = 80, scrollLeft = 10, scrollWidth = 210,
                      clientWidth = 80, offsetWidth = 80\<rparr>
      else if i = 10 then box (- 10) 90
      else if i = 12 then box 100 200
      else box 0 0)"

definition galleryStyle :: "nat \<Rightarrow> string \<Rightarrow> string option" where
  "galleryStyle i name =
     (if i = 20 \<and> name = ''--thumbnails-per-view'' then Some ''4''
      else if i = 20 \<and> name = ''--thumbnail-size'' then Some '' 80px''
      else if i = 20 \<and> name = ''--thumbnail-gap'' then Some ''0''
      else None)"

definition galleryBrowser :: "element list \<Rightarrow> browser" where
  "galleryBrowser mainDisplay =
     \<lparr>doc = galleryPage mainDisplay, nextId = 21, layout = galleryLayout,
      computedStyle = galleryStyle, scrollRequests = [], windowListeners = []\<rparr>"

text \<open>The controller's fields on that page, as the constructor's queries find them.\<close>

definition exampleGallery :: "element list \<Rightarrow> gallery" where
  "exampleGallery mainDisplay =
     \<lparr>doc = galleryPage mainDisplay, nextId = 21, layout = galleryLayout,
      computedStyle = galleryStyle, scrollRequests = [], windowListeners = [],
      container = 20, mainImageContainer = Some 2, thumbnailCarousel = Some 9,
      thumbnailWrapper = Some 8, thumbnailItems = [10, 12], prevBtn = Some 7, nextBtn = Some 14,
      hiddenMedia = Some 15, currentIndex = 0, thumbnailsPerView = Num 4, thumbnailSize = 80,
      thumbnailGap = 10\<rparr>"

text \<open>The same gallery on a strip that is narrower than one thumbnail.\<close>

definition narrowGallery :: gallery where
  "narrowGallery = (exampleGallery fullDisplay)\<lparr>layout := narrowLayout\<rparr>"

text \<open>The gallery whose main display is empty and whose second hidden media node has lost
  its index attribute.\<close>

definition unindexedGallery :: gallery where
  "unindexedGallery =
     (exampleGallery emptyDisplay)\<lparr>doc := removeAttribute 18 ''data-media-index'' (galleryPage emptyDisplay)\<rparr>"

text \<open>
  A page with the size guide component: the host element 2 holds the details element 3
  with its summary 4, the backdrop 5 and the drawer panel 6 with its close button 7. In
  \<open>barePage\<close> the details element has no summary.
\<close>

definition drawerPage :: element where
  "drawerPage =
     Element 0 (mkNode ''body'' [] [])
       [Element 2 (mkNode ''size-guide-drawer'' [] [])
          [Element 3 (mkNode ''details'' [] [])
             [Element 4 (mkNode ''summary'' [] [(''aria-expanded'', ''false'')]) [],
              Element 5 (mkNode ''div'' [''size-guide-drawer__backdrop''] []) [],
              Element 6 (mkNode ''div'' [''size-guide-drawer''] [])
                [Element 7 (mkNode ''button'' [''size-guide-drawer__close-button''] []) [],
                 Element 8 (mkNode ''table'' [] []) []]]]]"

definition barePage :: element where
  "barePage =
     Element 0 (mkNode ''body'' [] [])
       [Element 2 (mkNode ''size-guide-drawer'' [] [])
          [Element 3 (mkNode ''details'' [] [])
             [Element 6 (mkNode ''div'' [''size-guide-drawer''] []) []]]]"

text \<open>The component as the browser creates it on a page, before \<open>connectedCallback\<close>.\<close>

definition newDrawer :: "element \<Rightarrow> drawer" where
  "newDrawer page =
     \<lparr>doc = page, nextId = 9, layout = (\<lambda>i. box 0 0), computedStyle = (\<lambda>i name. None),
      scrollRequests = [], windowListeners = [],
      host = 2, details_ref = 3, drawerWrapper = None, boundBackdropClick = None,
      boundCloseClick = None, nextFn = 0, frameCallbacks = [], animationCallbacks = [],
      focusTrap = None\<rparr>"

definition exampleDrawer :: drawer where
  "exampleDrawer = connectedCallback (newDrawer drawerPage)"

definition bareDrawer :: drawer where
  "bareDrawer = connectedCallback (newDrawer barePage)"


section \<open>Facts about the DOM operations\<close>

lemma find_append_case:
  "find P (xs @ ys) = (case find P xs of None \<Rightarrow> find P ys | Some x \<Rightarrow> Some x)"
  by (induction xs) auto

lemma find_map_comp: "find P (map f xs) = map_option f (find (\<lambda>x. P (f x)) xs)"
  by (induction xs) auto

lemma eid_modify [simp]: "eid (modify j f e) = eid e"
  by (cases e) simp

lemma self_modify: "self (modify j f e) = (if eid e = j then f (self e) else self e)"
  by (cases e) simp

lemma childNodes_modify: "childNodes (modify j f e) = map (modify j f) (childNodes e)"
  by (cases e) simp

lemma nodes_modify: "nodes (modify j f t) = map (modify j f) (nodes t)"
proof (induction t)
  case (Element k p ks)
  have "map (\<lambda>x. nodes (modify j f x)) ks = map (\<lambda>x. map (modify j f) (nodes x)) ks"
    using Element.IH by simp
  then show ?case
    by (simp add: map_concat comp_def del: map_eq_conv)
qed

lemma ids_modify [simp]: "ids (modify j f t) = ids t"
  by (simp add: ids_def nodes_modify comp_def)

lemma getElement_modify:
  "getElement (modify j f d) i = map_option (modify j f) (getElement d i)"
  by (simp add: getElement_def nodes_modify find_map_comp)

lemma getElement_eid: "getElement d i = Some e \<Longrightarrow> eid e = i"
  by (auto simp: getElement_def find_Some_iff)

lemma getElement_None_iff: "getElement d i = None \<longleftrightarrow> i \<notin> set (ids d)"
  by (auto simp: getElement_def ids_def find_None_iff)

lemma ids_setDisabled [simp]: "ids (setDisabled j b d) = ids d"
  by (simp add: setDisabled_def)

lemma isDisabled_setDisabled:
  "isDisabled (setDisabled j b d) i = (if i = j then b \<and> i \<in> set (ids d) else isDisabled d i)"
proof (cases "getElement d i")
  case None
  then show ?thesis
    by (auto simp: isDisabled_def setDisabled_def getElement_modify getElement_None_iff [symmetric])
next
  case (Some e)
  then have "eid e = i" and "i \<in> set (ids d)"
    using getElement_eid getElement_None_iff [of d i] by auto
  with Some show ?thesis
    by (auto simp: isDisabled_def setDisabled_def getElement_modify self_modify)
qed

lemma descendants_modify: "descendants (modify j f e) = map (modify j f) (descendants e)"
  by (cases e) (simp add: descendants_def nodes_modify map_concat comp_def)

lemma firstMatch_modify:
  assumes "\<And>p. matches sel (f p) = matches sel p"
  shows "firstMatch sel (modify j f e) = firstMatch sel e"
  by (simp add: firstMatch_def descendants_modify find_map_comp self_modify assms option.map_comp comp_def)

lemma querySelector_modify:
  assumes "\<And>p. matches sel (f p) = matches sel p"
  shows "querySelector (modify j f d) i sel = querySelector d i sel"
  by (cases "getElement d i") (simp_all add: querySelector_def getElement_modify firstMatch_modify assms)

lemma matches_classList:
  assumes "avoidsClass c sel" and "set cs - {c} = set (classList p) - {c}"
  shows "matches sel (p\<lparr>classList := cs\<rparr>) = matches sel p"
  using assms by (induction sel) auto

lemma querySelector_classList_add:
  "avoidsClass c sel \<Longrightarrow> querySelector (classList_add t c d) i sel = querySelector d i sel"
  unfolding classList_add_def
  by (rule querySelector_modify, rule matches_classList) auto

lemma querySelector_classList_remove:
  "avoidsClass c sel \<Longrightarrow> querySelector (classList_remove t c d) i sel = querySelector d i sel"
  unfolding classList_remove_def
  by (rule querySelector_modify, rule matches_classList) auto

lemma querySelector_markActive:
  "avoidsClass ''active'' sel \<Longrightarrow> querySelector (markActive g i) x sel = querySelector (doc g) x sel"
  by (simp add: markActive_def Let_def querySelector_classList_add querySelector_classList_remove
        split: option.splits)


lemma nodeOf_modify:
  "nodeOf (modify j f d) i = (if i = j then map_option f (nodeOf d i) else nodeOf d i)"
  by (cases "getElement d i")
     (auto simp: nodeOf_def getElement_modify self_modify dest: getElement_eid)

lemma nodeOf_None_iff: "nodeOf d i = None \<longleftrightarrow> i \<notin> set (ids d)"
  by (simp add: nodeOf_def getElement_None_iff)

lemma in_ids_iff: "i \<in> set (ids d) \<longleftrightarrow> nodeOf d i \<noteq> None"
  by (simp add: nodeOf_None_iff)

lemma find_Some_D: "find P xs = Some x \<Longrightarrow> P x \<and> x \<in> set xs"
  by (induction xs) (auto split: if_splits)

lemma nodeOf_root: "nodeOf d (eid d) = Some (self d)"
  by (cases d) (simp add: nodeOf_def getElement_def)

lemma root_in_ids [simp]: "eid d \<in> set (ids d)"
  by (cases d) (simp add: ids_def)

lemma map_of_assign: "map_of (assign k v xs) k' = (if k' = k then Some v else map_of xs k')"
  by (induction k v xs rule: assign.induct) auto

lemma getAttribute_nodeOf:
  "getAttribute d i k = (case nodeOf d i of None \<Rightarrow> None | Some p \<Rightarrow> map_of (attributes p) k)"
  by (simp add: getAttribute_def nodeOf_def split: option.splits)

lemma hasClass_nodeOf:
  "hasClass d i c = (case nodeOf d i of None \<Rightarrow> False | Some p \<Rightarrow> c \<in> set (classList p))"
  by (simp add: hasClass_def nodeOf_def split: option.splits)

lemma getStyle_nodeOf:
  "getStyle d i k =
     (case nodeOf d i of None \<Rightarrow> [] | Some p \<Rightarrow> (case map_of (inlineStyle p) k of None \<Rightarrow> [] | Some v \<Rightarrow> v))"
  by (simp add: getStyle_def nodeOf_def split: option.splits)

lemma listenersOf_nodeOf:
  "listenersOf d i ty =
     (case nodeOf d i of None \<Rightarrow> [] | Some p \<Rightarrow> map snd (filter (\<lambda>x. fst x = ty) (listeners p)))"
  by (simp add: listenersOf_def nodeOf_def split: option.splits)

lemmas setters_def = setAttribute_def removeAttribute_def classList_add_def classList_remove_def
  setStyle_def addEventListener_def removeEventListener_def setDisabled_def

lemma ids_setters [simp]:
  "ids (setAttribute j a v d) = ids d"
  "ids (removeAttribute j a d) = ids d"
  "ids (classList_add j c d) = ids d"
  "ids (classList_remove j c d) = ids d"
  "ids (setStyle j k v d) = ids d"
  "ids (addEventListener j ty l d) = ids d"
  "ids (removeEventListener j ty l d) = ids d"
  by (simp_all add: setters_def)

lemma eid_setters [simp]:
  "eid (setAttribute j a v d) = eid d"
  "eid (removeAttribute j a d) = eid d"
  "eid (classList_add j c d) = eid d"
  "eid (classList_remove j c d) = eid d"
  "eid (setStyle j k v d) = eid d"
  "eid (addEventListener j ty l d) = eid d"
  "eid (removeEventListener j ty l d) = eid d"
  by (simp_all add: setters_def)

text \<open>Each getter reads one field; a setter of another field does not change it.\<close>

lemma getStyle_other [simp]:
  "getStyle (setAttribute j a v d) i k = getStyle d i k"
  "getStyle (removeAttribute j a d) i k = getStyle d i k"
  "getStyle (classList_add j c d) i k = getStyle d i k"
  "getStyle (classList_remove j c d) i k = getStyle d i k"
  "getStyle (addEventListener j ty l d) i k = getStyle d i k"
  "getStyle (removeEventListener j ty l d) i k = getStyle d i k"
  by (auto simp: getStyle_nodeOf setters_def nodeOf_modify split: option.splits)

lemma getAttribute_other [simp]:
  "getAttribute (setStyle j k v d) i a = getAttribute d i a"
  "getAttribute (classList_add j c d) i a = getAttribute d i a"
  "getAttribute (classList_remove j c d) i a = getAttribute d i a"
  "getAttribute (addEventListener j ty l d) i a = getAttribute d i a"
  "getAttribute (removeEventListener j ty l d) i a = getAttribute d i a"
  by (auto simp: getAttribute_nodeOf setters_def nodeOf_modify split: option.splits)

lemma hasClass_other [simp]:
  "hasClass (setStyle j k v d) i c = hasClass d i c"
  "hasClass (setAttribute j a v d) i c = hasClass d i c"
  "hasClass (removeAttribute j a d) i c = hasClass d i c"
  "hasClass (addEventListener j ty l d) i c = hasClass d i c"
  "hasClass (removeEventListener j ty l d) i c = hasClass d i c"
  by (auto simp: hasClass_nodeOf setters_def nodeOf_modify split: option.splits)

lemma listenersOf_other [simp]:
  "listenersOf (setStyle j k v d) i ty = listenersOf d i ty"
  "listenersOf (setAttribute j a v d) i ty = listenersOf d i ty"
  "listenersOf (removeAttribute j a d) i ty = listenersOf d i ty"
  "listenersOf (classList_add j c d) i ty = listenersOf d i ty"
  "listenersOf (classList_remove j c d) i ty = listenersOf d i ty"
  by (auto simp: listenersOf_nodeOf setters_def nodeOf_modify split: option.splits)

lemma getStyle_setStyle:
  "getStyle (setStyle j k v d) i k' = (if i = j \<and> k' = k \<and> j \<in> set (ids d) then v else getStyle d i k')"
  by (auto simp: getStyle_nodeOf setters_def nodeOf_modify map_of_assign in_ids_iff
      split: option.splits)

lemma getAttribute_setAttribute:
  "getAttribute (setAttribute j a v d) i a' =
     (if i = j \<and> a' = a \<and> j \<in> set (ids d) then Some v else getAttribute d i a')"
  by (auto simp: getAttribute_nodeOf setters_def nodeOf_modify map_of_assign in_ids_iff
      split: option.splits)

lemma map_of_filter_key: "map_of (filter (\<lambda>kv. fst kv \<noteq> k) xs) k' = (if k' = k then None else map_of xs k')"
  by (induction xs) auto

lemma getAttribute_removeAttribute:
  "getAttribute (removeAttribute j a d) i a' = (if i = j \<and> a' = a then None else getAttribute d i a')"
  by (auto simp: getAttribute_nodeOf setters_def nodeOf_modify map_of_filter_key split: option.splits)

lemma hasClass_classList_remove:
  "hasClass (classList_remove j c d) i c' = (hasClass d i c' \<and> \<not> (i = j \<and> c' = c))"
  by (auto simp: hasClass_nodeOf setters_def nodeOf_modify split: option.splits)

lemma hasClass_classList_add:
  "hasClass (classList_add j c d) i c' = (hasClass d i c' \<or> (i = j \<and> c' = c \<and> j \<in> set (ids d)))"
  by (auto simp: hasClass_nodeOf setters_def nodeOf_modify in_ids_iff split: option.splits)

lemmas getter_simps = getStyle_setStyle getAttribute_setAttribute getAttribute_removeAttribute
  hasClass_classList_remove hasClass_classList_add hasAttribute_def

lemma nodes_subtree: "e \<in> set (nodes t) \<Longrightarrow> set (nodes e) \<subseteq> set (nodes t)"
proof (induction t)
  case (Element k p ks)
  then show ?case by (cases "e = Element k p ks") auto
qed

lemma getElement_in_nodes: "getElement d i = Some e \<Longrightarrow> e \<in> set (nodes d)"
  by (auto simp: getElement_def dest: find_Some_D)

lemma descendants_subset: "set (descendants e) \<subseteq> set (nodes e)"
  by (cases e) (auto simp: descendants_def)

lemma querySelector_in_ids:
  assumes "querySelector d i sel = Some x"
  shows "x \<in> set (ids d)"
proof -
  from assms obtain e where e: "getElement d i = Some e" "firstMatch sel e = Some x"
    by (auto simp: querySelector_def split: option.splits)
  then obtain y where "y \<in> set (descendants e)" "eid y = x"
    by (auto simp: firstMatch_def dest: find_Some_D)
  then have "y \<in> set (nodes d)"
    using descendants_subset nodes_subtree [OF getElement_in_nodes [OF e(1)]] by blast
  with \<open>eid y = x\<close> show ?thesis by (auto simp: ids_def)
qed


subsection \<open>Pruning and attaching\<close>

lemma eid_prune [simp]: "eid (prune c t) = eid t"
  by (cases t) simp

lemma self_prune [simp]: "self (prune c t) = self t"
  by (cases t) simp

lemma eid_attach [simp]: "eid (attach p X t) = eid t"
  by (cases t) simp

lemma self_attach [simp]: "self (attach p X t) = self t"
  by (cases t) simp

lemma ids_Element: "ids (Element j q ks) = j # concat (map ids ks)"
  by (simp add: ids_def [abs_def] map_concat comp_def)

lemma ids_descendants: "map eid (descendants t) = concat (map ids (childNodes t))"
  by (cases t) (simp add: descendants_def ids_def [abs_def] map_concat comp_def)

lemma attach_absent: "p \<notin> set (ids t) \<Longrightarrow> attach p X t = t"
proof (induction t)
  case (Element j q ks)
  then have "map (attach p X) ks = ks"
    by (intro map_idI) (auto simp: ids_Element)
  with Element.prems show ?case by (simp add: ids_Element)
qed

lemma prune_absent: "c \<notin> set (map eid (descendants t)) \<Longrightarrow> prune c t = t"
proof (induction t)
  case (Element j q ks)
  have a: "c \<notin> set (ids x)" if "x \<in> set ks" for x
    using Element.prems that by (auto simp: ids_descendants)
  have "filter (\<lambda>k. eid k \<noteq> c) ks = ks"
    using a root_in_ids by (fastforce simp: filter_id_conv)
  moreover have "map (prune c) ks = ks"
  proof (intro map_idI)
    fix x assume x: "x \<in> set ks"
    have "set (map eid (descendants x)) \<subseteq> set (ids x)"
      using descendants_subset [of x] by (auto simp: ids_def)
    with a [OF x] show "prune c x = x"
      using Element.IH [OF x] by blast
  qed
  ultimately show ?case by simp
qed

lemma mset_ids_prune: "mset (ids t) = mset (ids (prune c t)) + mset (removed c t)"
proof (induction t)
  case (Element j q ks)
  have "mset (concat (map ids ks))
      = mset (concat (map ids (map (prune c) (filter (\<lambda>k. eid k \<noteq> c) ks))))
        + mset (concat (map (\<lambda>x. if eid x = c then ids x else removed c x) ks))"
    using Element.IH by (induction ks) auto
  then show ?case by (simp add: ids_Element)
qed

lemma mset_ids_attach:
  "mset (ids (attach p X t)) = mset (ids t) + repeat_mset (count (mset (ids t)) p) (mset (ids X))"
proof (induction t)
  case (Element j q ks)
  have "mset (concat (map ids (map (attach p X) ks)))
      = mset (concat (map ids ks)) + repeat_mset (count (mset (concat (map ids ks))) p) (mset (ids X))"
    using Element.IH by (induction ks) (auto simp: repeat_mset_distrib)
  then show ?case by (simp add: ids_Element repeat_mset_distrib)
qed


lemma find_nodes_root:
  "find (\<lambda>e. eid e = i) (nodes (Element j q ks)) =
     (if j = i then Some (Element j q ks) else find (\<lambda>e. eid e = i) (concat (map nodes ks)))"
  by simp

lemma find_None_ids: "find (\<lambda>e. eid e = i) (nodes t) = None \<longleftrightarrow> i \<notin> set (ids t)"
  by (auto simp: find_None_iff ids_def)

lemma find_concat_filter_cong:
  assumes "\<And>k. k \<in> set ks \<Longrightarrow> Q k \<Longrightarrow> find P (g k) = map_option h (find P' (f k))"
    and "\<And>k. k \<in> set ks \<Longrightarrow> \<not> Q k \<Longrightarrow> find P' (f k) = None"
  shows "find P (concat (map g (filter Q ks))) = map_option h (find P' (concat (map f ks)))"
  using assms
proof (induction ks)
  case Nil
  then show ?case by simp
next
  case (Cons x xs)
  then have "find P (concat (map g (filter Q xs))) = map_option h (find P' (concat (map f xs)))"
    by simp
  then show ?case
    using Cons.prems(1) [of x] Cons.prems(2) [of x]
    by (cases "Q x") (simp_all add: find_append_case split: option.splits)
qed

lemma find_concat_cong:
  assumes "\<And>k. k \<in> set ks \<Longrightarrow> find P (g k) = map_option h (find P' (f k))"
  shows "find P (concat (map g ks)) = map_option h (find P' (concat (map f ks)))"
  using find_concat_filter_cong [of ks "\<lambda>k. True" P g h P' f] assms by simp

lemma find_concat_const:
  assumes "\<And>k. k \<in> set ks \<Longrightarrow> find P (g k) = (if B k then v else None)"
  shows "find P (concat (map g ks)) = (if \<exists>k\<in>set ks. B k then v else None)"
  using assms
proof (induction ks)
  case Nil
  then show ?case by simp
next
  case (Cons x xs)
  then have "find P (concat (map g xs)) = (if \<exists>k\<in>set xs. B k then v else None)"
    by simp
  then show ?case
    using Cons.prems [of x]
    by (cases "B x") (simp_all add: find_append_case split: option.splits)
qed

lemma find_concat_Some:
  "find P (concat (map g ks)) = Some y \<Longrightarrow> \<exists>k\<in>set ks. find P (g k) = Some y"
  by (induction ks) (auto simp: find_append_case split: option.splits)

lemma getElement_prune:
  "i \<notin> set (removed c t) \<Longrightarrow> getElement (prune c t) i = map_option (prune c) (getElement t i)"
proof (induction t)
  case (Element j q ks)
  have "find (\<lambda>e. eid e = i) (concat (map (\<lambda>x. nodes (prune c x)) (filter (\<lambda>k. eid k \<noteq> c) ks)))
      = map_option (prune c) (find (\<lambda>e. eid e = i) (concat (map nodes ks)))"
  proof (rule find_concat_filter_cong)
    fix k assume k: "k \<in> set ks" "eid k \<noteq> c"
    then have "i \<notin> set (removed c k)" using Element.prems by auto
    then show "find (\<lambda>e. eid e = i) (nodes (prune c k)) = map_option (prune c) (find (\<lambda>e. eid e = i) (nodes k))"
      using Element.IH [OF k(1)] by (simp add: getElement_def)
  next
    fix k assume k: "k \<in> set ks" "\<not> eid k \<noteq> c"
    then have "i \<notin> set (ids k)" using Element.prems by auto
    then show "find (\<lambda>e. eid e = i) (nodes k) = None" by (simp add: find_None_ids)
  qed
  then show ?case by (simp add: getElement_def comp_def)
qed

lemma getElement_attach:
  "i \<notin> set (ids X) \<Longrightarrow> getElement (attach p X t) i = map_option (attach p X) (getElement t i)"
proof (induction t)
  case (Element j q ks)
  have "find (\<lambda>e. eid e = i) (concat (map (\<lambda>x. nodes (attach p X x)) ks))
      = map_option (attach p X) (find (\<lambda>e. eid e = i) (concat (map nodes ks)))"
    by (rule find_concat_cong) (use Element in \<open>simp add: getElement_def\<close>)
  moreover have "find (\<lambda>e. eid e = i) (nodes X) = None"
    using Element.prems by (simp add: find_None_ids)
  ultimately show ?case
    by (simp add: getElement_def find_append_case comp_def split: option.splits)
qed

lemma getElement_attach_new:
  "i \<notin> set (ids t) \<Longrightarrow>
     getElement (attach p X t) i = (if p \<in> set (ids t) then getElement X i else None)"
proof (induction t)
  case (Element j q ks)
  have i: "j \<noteq> i" "\<And>x. x \<in> set ks \<Longrightarrow> i \<notin> set (ids x)"
    using Element.prems by (auto simp: ids_Element)
  have "find (\<lambda>e. eid e = i) (concat (map (\<lambda>x. nodes (attach p X x)) ks))
      = (if \<exists>k\<in>set ks. p \<in> set (ids k) then getElement X i else None)"
    by (rule find_concat_const) (use Element.IH i(2) in \<open>simp add: getElement_def\<close>)
  then show ?case
    using i(1) by (auto simp: getElement_def ids_Element find_append_case comp_def split: option.splits)
qed

lemma removed_covers:
  "getElement t c = Some C \<Longrightarrow> c \<noteq> eid t \<Longrightarrow> set (ids C) \<subseteq> set (removed c t)"
proof (induction t arbitrary: C)
  case (Element j q ks)
  then have "find (\<lambda>e. eid e = c) (concat (map nodes ks)) = Some C"
    by (simp add: getElement_def)
  then obtain k where k: "k \<in> set ks" "find (\<lambda>e. eid e = c) (nodes k) = Some C"
    using find_concat_Some by fastforce
  show ?case
  proof (cases "eid k = c")
    case True
    then have "k = C" using k(2) by (cases k) simp
    with True k(1) show ?thesis by auto
  next
    case False
    then have "set (ids C) \<subseteq> set (removed c k)"
      using Element.IH [OF k(1)] k(2) by (simp add: getElement_def)
    with False k(1) show ?thesis by auto
  qed
qed

lemma removed_origin:
  "x \<in> set (removed c t) \<Longrightarrow> \<exists>y \<in> set (descendants t). eid y = c \<and> x \<in> set (ids y)"
proof (induction t)
  case (Element j q ks)
  then obtain k where k: "k \<in> set ks" "x \<in> set (if eid k = c then ids k else removed c k)"
    by auto
  have sub: "set (nodes k) \<subseteq> set (descendants (Element j q ks))"
    using k(1) by (auto simp: descendants_def)
  show ?case
  proof (cases "eid k = c")
    case True
    moreover have "k \<in> set (nodes k)" by (cases k) simp
    ultimately show ?thesis using k(2) sub by auto
  next
    case False
    then obtain y where "y \<in> set (descendants k)" "eid y = c" "x \<in> set (ids y)"
      using Element.IH [OF k(1)] k(2) by auto
    then show ?thesis using sub descendants_subset [of k] by blast
  qed
qed


lemma node_unique:
  assumes "distinct (ids t)" and "a \<in> set (nodes t)" and "b \<in> set (nodes t)" and "eid a = eid b"
  shows "a = b"
  using assms by (auto simp: ids_def distinct_map dest: inj_onD)

lemma getElement_Some_iff:
  assumes "distinct (ids t)"
  shows "getElement t i = Some e \<longleftrightarrow> e \<in> set (nodes t) \<and> eid e = i"
proof
  assume "getElement t i = Some e"
  then show "e \<in> set (nodes t) \<and> eid e = i"
    using getElement_in_nodes getElement_eid by blast
next
  assume e: "e \<in> set (nodes t) \<and> eid e = i"
  then have "i \<in> set (ids t)" by (auto simp: ids_def)
  then obtain e' where e': "getElement t i = Some e'"
    using getElement_None_iff [of t i] by (cases "getElement t i") auto
  then have "e' = e"
    using node_unique [OF assms, of e' e] e getElement_in_nodes getElement_eid by blast
  with e' show "getElement t i = Some e" by simp
qed

lemma ids_subtree: "e \<in> set (nodes t) \<Longrightarrow> set (ids e) \<subseteq> set (ids t)"
  using nodes_subtree [of e t] by (auto simp: ids_def)

lemma distinct_child:
  "distinct (ids (Element j q ks)) \<Longrightarrow> k \<in> set ks \<Longrightarrow> distinct (ids k)"
  by (auto simp: ids_Element distinct_concat_iff)

lemma distinct_subtree: "distinct (ids t) \<Longrightarrow> e \<in> set (nodes t) \<Longrightarrow> distinct (ids e)"
proof (induction t)
  case (Element j q ks)
  show ?case
  proof (cases "e = Element j q ks")
    case True
    with Element.prems show ?thesis by simp
  next
    case False
    then obtain k where k: "k \<in> set ks" "e \<in> set (nodes k)"
      using Element.prems by auto
    then show ?thesis
      using Element.IH [OF k(1)] distinct_child [OF Element.prems(1) k(1)] by blast
  qed
qed


lemma getElement_subtree:
  assumes "distinct (ids d)" and "getElement d c = Some C" and "i \<in> set (ids C)"
  shows "getElement d i = getElement C i"
proof -
  obtain E where E: "getElement C i = Some E"
    using assms(3) getElement_None_iff [of C i] by (cases "getElement C i") auto
  then have "E \<in> set (nodes d)" "eid E = i"
    using getElement_in_nodes [OF E] getElement_eid [OF E]
      nodes_subtree [OF getElement_in_nodes [OF assms(2)]] by auto
  then show ?thesis
    using E getElement_Some_iff [OF assms(1)] by simp
qed

lemma removed_eq:
  assumes "distinct (ids t)" and "getElement t c = Some C" and "c \<noteq> eid t"
  shows "set (removed c t) = set (ids C)"
proof
  show "set (ids C) \<subseteq> set (removed c t)"
    using removed_covers [OF assms(2,3)] .
  show "set (removed c t) \<subseteq> set (ids C)"
  proof
    fix x assume "x \<in> set (removed c t)"
    then obtain y where y: "y \<in> set (descendants t)" "eid y = c" "x \<in> set (ids y)"
      using removed_origin by blast
    then have "y = C"
      using node_unique [OF assms(1), of y C] descendants_subset [of t]
        getElement_in_nodes [OF assms(2)] getElement_eid [OF assms(2)] by auto
    with y(3) show "x \<in> set (ids C)" by simp
  qed
qed

lemma movable_child:
  assumes "movable d p c"
  obtains C where "getElement d c = Some C" and "eid C = c" and "subtreeIds d c = ids C"
    and "distinct (ids C)" and "p \<notin> set (ids C)"
proof -
  from assms obtain C where C: "getElement d c = Some C"
    using getElement_None_iff [of d c] by (cases "getElement d c") (auto simp: movable_def)
  moreover have "distinct (ids C)"
    using assms distinct_subtree [OF _ getElement_in_nodes [OF C]] by (simp add: movable_def)
  ultimately show ?thesis
    using that assms getElement_eid [OF C] by (simp add: movable_def subtreeIds_def)
qed

lemma move_mset:
  assumes "movable d p c"
  shows "mset (ids (move p c d)) = mset (ids d)"
proof -
  obtain C where C: "getElement d c = Some C" "distinct (ids C)" "p \<notin> set (ids C)"
    using movable_child [OF assms] by metis
  have d: "distinct (ids d)" "c \<noteq> eid d" "p \<in> set (ids d)"
    using assms by (simp_all add: movable_def)
  have m: "mset (ids d) = mset (ids (prune c d)) + mset (removed c d)"
    by (rule mset_ids_prune)
  have r: "set (removed c d) = set (ids C)"
    by (rule removed_eq [OF d(1) C(1) d(2)])
  have "distinct (ids (prune c d) @ removed c d)"
    using d(1) mset_eq_imp_distinct_iff [of "ids d" "ids (prune c d) @ removed c d"] m by simp
  then have dp: "distinct (ids (prune c d))" "distinct (removed c d)"
    "set (ids (prune c d)) \<inter> set (removed c d) = {}"
    by auto
  have rm: "mset (removed c d) = mset (ids C)"
    using dp(2) C(2) r by (simp add: set_eq_iff_mset_eq_distinct)
  have "p \<in> set (ids (prune c d))"
    using d(3) C(3) r mset_eq_setD [of "ids d" "ids (prune c d) @ removed c d"] m by auto
  then have "count (mset (ids (prune c d))) p = 1"
    using dp(1) by (simp add: distinct_count_atmost_1)
  then show ?thesis
    by (simp add: move_def C(1) mset_ids_attach m rm)
qed

lemma move_ids:
  assumes "movable d p c"
  shows "distinct (ids (move p c d))" and "set (ids (move p c d)) = set (ids d)"
    and "eid (move p c d) = eid d"
proof -
  have "distinct (ids d)" using assms by (simp add: movable_def)
  then show "distinct (ids (move p c d))"
    using mset_eq_imp_distinct_iff [OF move_mset [OF assms]] by simp
  show "set (ids (move p c d)) = set (ids d)"
    using mset_eq_setD [OF move_mset [OF assms]] .
  show "eid (move p c d) = eid d"
    by (simp add: move_def split: option.splits)
qed

lemma appendChild_move:
  assumes "movable d p c"
  shows "appendChild p (Some c) d = Inr (move p c d)"
proof -
  obtain C where "getElement d c = Some C" "p \<notin> set (ids C)"
    using movable_child [OF assms] by metis
  then show ?thesis by (simp add: appendChild_def move_def)
qed

lemma move_getElement:
  assumes "movable d p c" and "getElement d c = Some C"
  shows "getElement (move p c d) i =
     (if i \<in> set (ids C) then getElement d i
      else map_option (\<lambda>E. attach p C (prune c E)) (getElement d i))"
proof -
  have d: "distinct (ids d)" "c \<noteq> eid d" "p \<in> set (ids d)" "p \<notin> set (ids C)"
    using assms by (simp_all add: movable_def subtreeIds_def)
  have r: "set (removed c d) = set (ids C)"
    by (rule removed_eq [OF d(1) assms(2) d(2)])
  have m: "mset (ids d) = mset (ids (prune c d)) + mset (removed c d)"
    by (rule mset_ids_prune)
  have "distinct (ids (prune c d) @ removed c d)"
    using d(1) mset_eq_imp_distinct_iff [of "ids d" "ids (prune c d) @ removed c d"] m by simp
  then have dis: "set (ids (prune c d)) \<inter> set (ids C) = {}"
    using r by auto
  have pin: "p \<in> set (ids (prune c d))"
    using d(3,4) r mset_eq_setD [of "ids d" "ids (prune c d) @ removed c d"] m by auto
  show ?thesis
  proof (cases "i \<in> set (ids C)")
    case True
    then have "i \<notin> set (ids (prune c d))" using dis by auto
    then have "getElement (move p c d) i = getElement C i"
      using pin by (simp add: move_def assms(2) getElement_attach_new)
    with True show ?thesis
      using getElement_subtree [OF d(1) assms(2) True] by simp
  next
    case False
    then have "i \<notin> set (removed c d)" using r by simp
    with False show ?thesis
      by (simp add: move_def assms(2) getElement_attach getElement_prune option.map_comp comp_def)
  qed
qed

lemma move_nodeOf:
  assumes "movable d p c"
  shows "nodeOf (move p c d) i = nodeOf d i"
proof -
  obtain C where C: "getElement d c = Some C"
    using movable_child [OF assms] by metis
  show ?thesis
    by (cases "getElement d i") (simp_all add: nodeOf_def move_getElement [OF assms C])
qed


lemma nodes_eq: "nodes e = e # descendants e"
  by (cases e) (simp add: descendants_def)

lemma ids_eq: "ids e = eid e # concat (map ids (childNodes e))"
  by (cases e) (simp add: ids_Element)

lemma children_in_descendants:
  assumes "U \<in> set (nodes d)" and "C \<in> set (childNodes U)"
  shows "C \<in> set (descendants d)" and "C \<in> set (nodes U)" and "set (ids C) \<subseteq> set (ids U)"
proof -
  have "C \<in> set (nodes C)" by (cases C) simp
  then show c: "C \<in> set (nodes U)" using assms(2) by (cases U) auto
  then show "set (ids C) \<subseteq> set (ids U)" by (rule ids_subtree)
  have "C \<in> set (descendants U)"
    using assms(2) \<open>C \<in> set (nodes C)\<close> by (cases U) (auto simp: descendants_def)
  then show "C \<in> set (descendants d)"
    using assms(1)
  proof (induction d)
    case (Element j q ks)
    show ?case
    proof (cases "U = Element j q ks")
      case True
      with Element.prems show ?thesis by simp
    next
      case False
      then obtain k where k: "k \<in> set ks" "U \<in> set (nodes k)"
        using Element.prems by auto
      then have "C \<in> set (descendants k)" using Element by blast
      then show ?thesis
        using k(1) descendants_subset [of k] by (auto simp: descendants_def)
    qed
  qed
qed

text \<open>A child of an element of a document with distinct identities.\<close>

lemma child_facts:
  assumes "distinct (ids d)" and "c \<in> set (childIds d u)"
  obtains U C where "getElement d u = Some U" and "getElement d c = Some C"
    and "C \<in> set (childNodes U)" and "eid C = c" and "eid U = u"
    and "c \<noteq> eid d" and "c \<noteq> u" and "u \<notin> set (ids C)"
proof -
  from assms(2) obtain U where U: "getElement d u = Some U"
    by (cases "getElement d u") (auto simp: childIds_def)
  with assms(2) obtain C where C: "C \<in> set (childNodes U)" "eid C = c"
    by (auto simp: childIds_def)
  have Un: "U \<in> set (nodes d)" "eid U = u"
    using getElement_in_nodes [OF U] getElement_eid [OF U] by auto
  note cd = children_in_descendants [OF Un(1) C(1)]
  have Cn: "C \<in> set (nodes d)" using cd(1) descendants_subset by blast
  then have gc: "getElement d c = Some C"
    using getElement_Some_iff [OF assms(1)] C(2) by simp
  have "c \<in> set (map eid (descendants d))" using cd(1) C(2) by force
  moreover have "eid d \<notin> set (map eid (descendants d))"
    using assms(1) by (simp add: ids_def nodes_eq [of d])
  ultimately have ne: "c \<noteq> eid d" by blast
  have dU: "distinct (ids U)" by (rule distinct_subtree [OF assms(1) Un(1)])
  have "set (ids C) \<subseteq> set (concat (map ids (childNodes U)))"
    using C(1) by auto
  then have "u \<notin> set (ids C)"
    using dU Un(2) by (auto simp: ids_eq [of U])
  moreover from this have "c \<noteq> u" using C(2) root_in_ids [of C] by auto
  ultimately show ?thesis using that U gc C Un(2) ne by blast
qed

lemma child_subtree:
  assumes "distinct (ids d)" and "c \<in> set (childIds d u)"
  shows "set (subtreeIds d c) \<subseteq> set (subtreeIds d u)" and "u \<notin> set (subtreeIds d c)"
    and "c \<in> set (subtreeIds d c)" and "c \<in> set (ids d)" and "u \<in> set (ids d)"
proof -
  obtain U C where f: "getElement d u = Some U" "getElement d c = Some C"
    "C \<in> set (childNodes U)" "eid C = c" "eid U = u" "u \<notin> set (ids C)"
    using child_facts [OF assms] by metis
  have "set (ids C) \<subseteq> set (ids U)"
    using children_in_descendants(3) [OF getElement_in_nodes [OF f(1)] f(3)] .
  then show "set (subtreeIds d c) \<subseteq> set (subtreeIds d u)" by (simp add: subtreeIds_def f)
  show "u \<notin> set (subtreeIds d c)" using f by (simp add: subtreeIds_def)
  show "c \<in> set (subtreeIds d c)" using f(2,4) root_in_ids [of C] by (simp add: subtreeIds_def)
  show "c \<in> set (ids d)"
    using f(2) getElement_None_iff [of d c] by simp
  show "u \<in> set (ids d)"
    using f(1) getElement_None_iff [of d u] by simp
qed

lemma siblings_disjoint:
  assumes "distinct (ids d)" and "a \<in> set (childIds d u)" and "b \<in> set (childIds d u)" and "a \<noteq> b"
  shows "set (subtreeIds d a) \<inter> set (subtreeIds d b) = {}"
proof -
  obtain U A where A: "getElement d u = Some U" "getElement d a = Some A" "A \<in> set (childNodes U)" "eid A = a"
    using child_facts [OF assms(1,2)] by metis
  obtain U' B where B: "getElement d u = Some U'" "getElement d b = Some B" "B \<in> set (childNodes U')" "eid B = b"
    using child_facts [OF assms(1,3)] by metis
  have U: "U' = U" using A(1) B(1) by simp
  have "distinct (ids U)"
    by (rule distinct_subtree [OF assms(1) getElement_in_nodes [OF A(1)]])
  then have "distinct (concat (map ids (childNodes U)))" by (simp add: ids_eq [of U])
  moreover have "ids A \<noteq> ids B" using A(4) B(4) assms(4) by (auto simp: ids_eq [of A] ids_eq [of B])
  ultimately have "set (ids A) \<inter> set (ids B) = {}"
    using A(3) B(3) U by (auto simp: distinct_concat_iff)
  then show ?thesis by (simp add: subtreeIds_def A(2) B(2))
qed

lemma subtreeIds_leaf:
  assumes "i \<in> set (ids d)" and "childIds d i = []"
  shows "subtreeIds d i = [i]"
proof -
  obtain E where E: "getElement d i = Some E"
    using assms(1) getElement_None_iff [of d i] by (cases "getElement d i") auto
  then show ?thesis
    using assms(2) getElement_eid [OF E] by (simp add: subtreeIds_def childIds_def ids_eq [of E])
qed

lemma subtreeIds_subset: "set (subtreeIds d i) \<subseteq> set (ids d)"
proof (cases "getElement d i")
  case None
  then show ?thesis by (simp add: subtreeIds_def)
next
  case (Some E)
  then show ?thesis
    using ids_subtree [OF getElement_in_nodes [OF Some]] by (simp add: subtreeIds_def)
qed


text \<open>What a move leaves alone: the subtree of the child, and every subtree that holds
  neither the child nor the new parent.\<close>

lemma move_getElement_same:
  assumes "movable d p c"
    and "i \<in> set (subtreeIds d c) \<or> (c \<notin> set (subtreeIds d i) \<and> p \<notin> set (subtreeIds d i))"
  shows "getElement (move p c d) i = getElement d i"
proof -
  obtain C where C: "getElement d c = Some C" "subtreeIds d c = ids C"
    using movable_child [OF assms(1)] by metis
  show ?thesis
  proof (cases "i \<in> set (ids C)")
    case True
    then show ?thesis by (simp add: move_getElement [OF assms(1) C(1)])
  next
    case False
    show ?thesis
    proof (cases "getElement d i")
      case None
      with False show ?thesis by (simp add: move_getElement [OF assms(1) C(1)])
    next
      case (Some E)
      have "subtreeIds d i = ids E" using Some by (simp add: subtreeIds_def)
      with False assms(2) C(2) have E: "c \<notin> set (ids E)" "p \<notin> set (ids E)"
        by auto
      have "set (map eid (descendants E)) \<subseteq> set (ids E)"
        using descendants_subset [of E] by (auto simp: ids_def)
      then have "prune c E = E" using E(1) prune_absent by blast
      then have "attach p C (prune c E) = E" using E(2) by (simp add: attach_absent)
      with False Some show ?thesis by (simp add: move_getElement [OF assms(1) C(1)])
    qed
  qed
qed

lemma move_new_parent:
  assumes "movable d p c" and "c \<notin> set (subtreeIds d p)"
    and "getElement d p = Some P" and "getElement d c = Some C"
  shows "getElement (move p c d) p = Some (Element p (self P) (childNodes P @ [C]))"
proof -
  have d: "distinct (ids d)" "p \<notin> set (ids C)"
    using assms(1,4) by (simp_all add: movable_def subtreeIds_def)
  have P: "eid P = p" "c \<notin> set (ids P)" "distinct (ids P)"
    using assms(2,3) getElement_eid [OF assms(3)]
      distinct_subtree [OF d(1) getElement_in_nodes [OF assms(3)]]
    by (simp_all add: subtreeIds_def)
  have "set (map eid (descendants P)) \<subseteq> set (ids P)"
    using descendants_subset [of P] by (auto simp: ids_def)
  then have 1: "prune c P = P" using P(2) prune_absent by blast
  have "map (attach p C) (childNodes P) = childNodes P"
  proof (intro map_idI)
    fix k assume "k \<in> set (childNodes P)"
    then have "p \<notin> set (ids k)"
      using P(1,3) by (auto simp: ids_eq [of P])
    then show "attach p C k = k" by (rule attach_absent)
  qed
  then have 2: "attach p C P = Element p (self P) (childNodes P @ [C])"
    using P(1) by (cases P) simp
  show ?thesis
    using d(2) 1 2 by (simp add: move_getElement [OF assms(1,4)] assms(3))
qed

lemma move_old_parent:
  assumes "movable d p c" and "c \<in> set (childIds d u)" and "p \<notin> set (subtreeIds d u)"
    and "getElement d u = Some U"
  shows "getElement (move p c d) u = Some (Element u (self U) (filter (\<lambda>k. eid k \<noteq> c) (childNodes U)))"
proof -
  have d: "distinct (ids d)" using assms(1) by (simp add: movable_def)
  obtain U' C where f: "getElement d u = Some U'" "getElement d c = Some C"
    "C \<in> set (childNodes U')" "eid C = c" "eid U' = u" "u \<notin> set (ids C)"
    using child_facts [OF d assms(2)] by metis
  have U: "U' = U" using f(1) assms(4) by simp
  have dU: "distinct (ids U)"
    by (rule distinct_subtree [OF d getElement_in_nodes [OF assms(4)]])
  have pU: "p \<notin> set (ids U)" using assms(3,4) by (simp add: subtreeIds_def)
  have "map (prune c) (filter (\<lambda>k. eid k \<noteq> c) (childNodes U)) = filter (\<lambda>k. eid k \<noteq> c) (childNodes U)"
  proof (intro map_idI)
    fix k assume k: "k \<in> set (filter (\<lambda>k. eid k \<noteq> c) (childNodes U))"
    then have "ids k \<noteq> ids C" using f(4) by (auto simp: ids_eq [of k] ids_eq [of C])
    moreover have "distinct (concat (map ids (childNodes U)))"
      using dU by (simp add: ids_eq [of U])
    ultimately have "set (ids k) \<inter> set (ids C) = {}"
      using k f(3) U by (auto simp: distinct_concat_iff)
    then have "c \<notin> set (ids k)" using f(4) root_in_ids [of C] by auto
    moreover have "set (map eid (descendants k)) \<subseteq> set (ids k)"
      using descendants_subset [of k] by (auto simp: ids_def)
    ultimately show "prune c k = k" using prune_absent by blast
  qed
  then have 1: "prune c U = Element u (self U) (filter (\<lambda>k. eid k \<noteq> c) (childNodes U))"
    using f(5) U by (cases U) simp
  have "set (ids (prune c U)) \<subseteq> set (ids U)"
    using mset_eq_setD [of "ids U" "ids (prune c U) @ removed c U"] mset_ids_prune [of U c] by auto
  then have 2: "attach p C (prune c U) = prune c U"
    using pU by (intro attach_absent) auto
  show ?thesis
    using f(6) 1 2 by (simp add: move_getElement [OF assms(1) f(2)] assms(4))
qed


lemma move_same_obs:
  assumes "movable d p c"
    and "i \<in> set (subtreeIds d c) \<or> (c \<notin> set (subtreeIds d i) \<and> p \<notin> set (subtreeIds d i))"
  shows "childIds (move p c d) i = childIds d i"
    and "subtreeIds (move p c d) i = subtreeIds d i"
    and "querySelector (move p c d) i sel = querySelector d i sel"
    and "querySelectorAll (move p c d) i sel = querySelectorAll d i sel"
  by (simp_all add: childIds_def subtreeIds_def querySelector_def querySelectorAll_def
        move_getElement_same [OF assms])

lemma movable_parent:
  assumes "movable d p c"
  obtains P where "getElement d p = Some P" and "eid P = p"
proof -
  from assms obtain P where P: "getElement d p = Some P"
    using getElement_None_iff [of d p] by (cases "getElement d p") (auto simp: movable_def)
  then show ?thesis using that getElement_eid [OF P] by simp
qed

lemma move_new_parent_obs:
  assumes "movable d p c" and "c \<notin> set (subtreeIds d p)"
  shows "childIds (move p c d) p = childIds d p @ [c]"
    and "subtreeIds (move p c d) p = subtreeIds d p @ subtreeIds d c"
    and "querySelector (move p c d) p sel =
           (case querySelector d p sel of
              Some x \<Rightarrow> Some x
            | None \<Rightarrow> (case nodeOf d c of
                         None \<Rightarrow> None
                       | Some n \<Rightarrow> if matches sel n then Some c else querySelector d c sel))"
proof -
  obtain C where C: "getElement d c = Some C" "eid C = c"
    using movable_child [OF assms(1)] by metis
  obtain P where P: "getElement d p = Some P" "eid P = p"
    using movable_parent [OF assms(1)] by metis
  note g = move_new_parent [OF assms P(1) C(1)]
  show "childIds (move p c d) p = childIds d p @ [c]"
    by (simp add: childIds_def g P C)
  show "subtreeIds (move p c d) p = subtreeIds d p @ subtreeIds d c"
    using P(2) by (simp add: subtreeIds_def g P(1) C(1) ids_Element ids_eq [of P])
  show "querySelector (move p c d) p sel =
           (case querySelector d p sel of
              Some x \<Rightarrow> Some x
            | None \<Rightarrow> (case nodeOf d c of
                         None \<Rightarrow> None
                       | Some n \<Rightarrow> if matches sel n then Some c else querySelector d c sel))"
    using C(2)
    by (simp add: querySelector_def g P(1) C(1) nodeOf_def firstMatch_def descendants_def
          find_append_case nodes_eq [of C] split: option.splits)
qed

lemma descendants_without_child:
  assumes "distinct (ids U)" and "C \<in> set (childNodes U)"
  shows "concat (map nodes (filter (\<lambda>k. eid k \<noteq> eid C) (childNodes U)))
       = filter (\<lambda>e. eid e \<notin> set (ids C)) (descendants U)"
proof -
  have dc: "distinct (concat (map ids (childNodes U)))"
    using assms(1) by (simp add: ids_eq [of U])
  have "filter (\<lambda>e. eid e \<notin> set (ids C)) (nodes k) = (if eid k \<noteq> eid C then nodes k else [])"
    if k: "k \<in> set (childNodes U)" for k
  proof (cases "eid k = eid C")
    case True
    have "ids k = ids C"
    proof (rule ccontr)
      assume "ids k \<noteq> ids C"
      then have "set (ids k) \<inter> set (ids C) = {}"
        using dc k assms(2) by (auto simp: distinct_concat_iff)
      then show False using True root_in_ids [of k] root_in_ids [of C] by auto
    qed
    then have "set (ids k) = set (ids C)" by simp
    then have "\<forall>e \<in> set (nodes k). eid e \<in> set (ids C)" by (auto simp: ids_def [of k])
    with True show ?thesis by (simp add: filter_empty_conv)
  next
    case False
    then have "ids k \<noteq> ids C" by (auto simp: ids_eq [of k] ids_eq [of C])
    then have "set (ids k) \<inter> set (ids C) = {}"
      using dc k assms(2) by (auto simp: distinct_concat_iff)
    then have "\<forall>e \<in> set (nodes k). eid e \<notin> set (ids C)" by (auto simp: ids_def)
    with False show ?thesis by (simp add: filter_id_conv)
  qed
  then have "map (\<lambda>k. filter (\<lambda>e. eid e \<notin> set (ids C)) (nodes k)) (childNodes U)
           = map (\<lambda>k. if eid k \<noteq> eid C then nodes k else []) (childNodes U)"
    by simp
  moreover have "concat (map (\<lambda>k. if Q k then nodes k else []) ks) = concat (map nodes (filter Q ks))"
    for Q and ks :: "element list"
    by (induction ks) auto
  ultimately show ?thesis
    by (simp add: descendants_def filter_concat comp_def del: map_eq_conv)
qed

lemma find_filter_Some: "find P xs = Some y \<Longrightarrow> Q y \<Longrightarrow> find P (filter Q xs) = Some y"
  by (induction xs) (auto split: if_splits)

lemma move_old_parent_obs:
  assumes "movable d p c" and "c \<in> set (childIds d u)" and "p \<notin> set (subtreeIds d u)"
  shows "childIds (move p c d) u = filter (\<lambda>x. x \<noteq> c) (childIds d u)"
    and "set (subtreeIds (move p c d) u) \<subseteq> set (subtreeIds d u) - set (subtreeIds d c)"
    and "querySelector d u sel = Some x \<Longrightarrow> x \<notin> set (subtreeIds d c)
           \<Longrightarrow> querySelector (move p c d) u sel = Some x"
    and "querySelectorAll (move p c d) u sel
           = filter (\<lambda>x. x \<notin> set (subtreeIds d c)) (querySelectorAll d u sel)"
proof -
  have d: "distinct (ids d)" using assms(1) by (simp add: movable_def)
  obtain U C where f: "getElement d u = Some U" "getElement d c = Some C"
    "C \<in> set (childNodes U)" "eid C = c" "eid U = u" "u \<notin> set (ids C)"
    using child_facts [OF d assms(2)] by metis
  have dU: "distinct (ids U)"
    by (rule distinct_subtree [OF d getElement_in_nodes [OF f(1)]])
  note g = move_old_parent [OF assms f(1)]
  note w = descendants_without_child [OF dU f(3), unfolded f(4)]
  have desc: "descendants (Element u (self U) (filter (\<lambda>k. eid k \<noteq> c) (childNodes U)))
            = filter (\<lambda>e. eid e \<notin> set (ids C)) (descendants U)"
    using w by (simp add: descendants_def)
  show "childIds (move p c d) u = filter (\<lambda>x. x \<noteq> c) (childIds d u)"
    by (simp add: childIds_def g f(1) filter_map comp_def)
  have "ids (Element u (self U) (filter (\<lambda>k. eid k \<noteq> c) (childNodes U)))
      = u # map eid (filter (\<lambda>e. eid e \<notin> set (ids C)) (descendants U))"
    using desc by (simp add: ids_def nodes_eq)
  moreover have "set (map eid (descendants U)) \<subseteq> set (ids U)"
    using descendants_subset [of U] by (auto simp: ids_def)
  ultimately show "set (subtreeIds (move p c d) u) \<subseteq> set (subtreeIds d u) - set (subtreeIds d c)"
    using f(5,6) root_in_ids [of U] by (auto simp: subtreeIds_def g f(1,2))
  show "querySelector (move p c d) u sel = Some x"
    if "querySelector d u sel = Some x" "x \<notin> set (subtreeIds d c)"
  proof -
    from that(1) obtain y where y: "find (\<lambda>x. matches sel (self x)) (descendants U) = Some y" "eid y = x"
      by (auto simp: querySelector_def firstMatch_def f(1))
    then have "find (\<lambda>x. matches sel (self x)) (filter (\<lambda>e. eid e \<notin> set (ids C)) (descendants U)) = Some y"
      using that(2) by (intro find_filter_Some) (simp_all add: subtreeIds_def f(2))
    then show ?thesis
      using y(2) by (simp add: querySelector_def firstMatch_def g desc)
  qed
  show "querySelectorAll (move p c d) u sel
           = filter (\<lambda>x. x \<notin> set (subtreeIds d c)) (querySelectorAll d u sel)"
    by (simp add: querySelectorAll_def g f(1,2) desc subtreeIds_def filter_map comp_def conj_commute)
qed


subsection \<open>Structure under the setters, and the two relocations of the drawer\<close>

lemma childIds_modify [simp]: "childIds (modify j f d) i = childIds d i"
  by (cases "getElement d i") (simp_all add: childIds_def getElement_modify childNodes_modify comp_def)

lemma subtreeIds_modify [simp]: "subtreeIds (modify j f d) i = subtreeIds d i"
  by (cases "getElement d i") (simp_all add: subtreeIds_def getElement_modify)

lemma movable_modify [simp]: "movable (modify j f d) p c = movable d p c"
  by (simp add: movable_def)

lemma querySelectorAll_modify:
  assumes "\<And>p. matches sel (f p) = matches sel p"
  shows "querySelectorAll (modify j f d) i sel = querySelectorAll d i sel"
  by (cases "getElement d i")
     (simp_all add: querySelectorAll_def getElement_modify descendants_modify filter_map comp_def
        self_modify assms)

lemma matches_plain:
  assumes "plain sel" and "tagName p' = tagName p" and "classList p' = classList p"
  shows "matches sel p' = matches sel p"
  using assms by (induction sel) auto

lemma structure_setters [simp]:
  "childIds (setAttribute j a v d) i = childIds d i"
  "childIds (removeAttribute j a d) i = childIds d i"
  "childIds (classList_add j c d) i = childIds d i"
  "childIds (classList_remove j c d) i = childIds d i"
  "childIds (setStyle j k v d) i = childIds d i"
  "childIds (addEventListener j ty l d) i = childIds d i"
  "childIds (removeEventListener j ty l d) i = childIds d i"
  "subtreeIds (setAttribute j a v d) i = subtreeIds d i"
  "subtreeIds (removeAttribute j a d) i = subtreeIds d i"
  "subtreeIds (classList_add j c d) i = subtreeIds d i"
  "subtreeIds (classList_remove j c d) i = subtreeIds d i"
  "subtreeIds (setStyle j k v d) i = subtreeIds d i"
  "subtreeIds (addEventListener j ty l d) i = subtreeIds d i"
  "subtreeIds (removeEventListener j ty l d) i = subtreeIds d i"
  "movable (setAttribute j a v d) p c' = movable d p c'"
  "movable (removeAttribute j a d) p c' = movable d p c'"
  "movable (classList_add j c d) p c' = movable d p c'"
  "movable (classList_remove j c d) p c' = movable d p c'"
  "movable (setStyle j k v d) p c' = movable d p c'"
  "movable (addEventListener j ty l d) p c' = movable d p c'"
  "movable (removeEventListener j ty l d) p c' = movable d p c'"
  by (simp_all add: setters_def)

lemma query_plain_setters [simp]:
  assumes "plain sel"
  shows "querySelector (setAttribute j a v d) i sel = querySelector d i sel"
    and "querySelector (removeAttribute j a d) i sel = querySelector d i sel"
    and "querySelector (setStyle j k v d) i sel = querySelector d i sel"
    and "querySelector (addEventListener j ty l d) i sel = querySelector d i sel"
    and "querySelector (removeEventListener j ty l d) i sel = querySelector d i sel"
    and "querySelectorAll (setAttribute j a v d) i sel = querySelectorAll d i sel"
    and "querySelectorAll (removeAttribute j a d) i sel = querySelectorAll d i sel"
    and "querySelectorAll (setStyle j k v d) i sel = querySelectorAll d i sel"
    and "querySelectorAll (addEventListener j ty l d) i sel = querySelectorAll d i sel"
    and "querySelectorAll (removeEventListener j ty l d) i sel = querySelectorAll d i sel"
  unfolding setters_def
  by (rule querySelector_modify querySelectorAll_modify, rule matches_plain [OF assms], simp, simp)+

lemma query_class_setters [simp]:
  assumes "avoidsClass c sel"
  shows "querySelectorAll (classList_add j c d) i sel = querySelectorAll d i sel"
    and "querySelectorAll (classList_remove j c d) i sel = querySelectorAll d i sel"
  unfolding setters_def
  by (rule querySelectorAll_modify, rule matches_classList [OF assms], auto)+

declare querySelector_classList_add [simp] querySelector_classList_remove [simp]

text \<open>Getters after a move.\<close>

lemma getters_move [simp]:
  assumes "movable d p c"
  shows "getAttribute (move p c d) i a = getAttribute d i a"
    and "hasClass (move p c d) i cl = hasClass d i cl"
    and "getStyle (move p c d) i k = getStyle d i k"
    and "listenersOf (move p c d) i ty = listenersOf d i ty"
  by (simp_all add: getAttribute_nodeOf hasClass_nodeOf getStyle_nodeOf listenersOf_nodeOf
        move_nodeOf [OF assms])


lemma find_filter_hd: "find P xs = (case filter P xs of [] \<Rightarrow> None | y # ys \<Rightarrow> Some y)"
  by (induction xs) auto

lemma querySelector_hd:
  "querySelector d i sel = (case querySelectorAll d i sel of [] \<Rightarrow> None | x # xs \<Rightarrow> Some x)"
  by (cases "getElement d i")
     (simp_all add: querySelector_def querySelectorAll_def firstMatch_def find_filter_hd split: list.splits)

lemma querySelectorAll_iff:
  assumes "distinct (ids d)"
  shows "x \<in> set (querySelectorAll d i sel) \<longleftrightarrow>
           x \<in> set (subtreeIds d i) \<and> x \<noteq> i \<and> (\<exists>n. nodeOf d x = Some n \<and> matches sel n)"
proof (cases "getElement d i")
  case None
  then show ?thesis by (simp add: querySelectorAll_def subtreeIds_def)
next
  case (Some E)
  have E: "E \<in> set (nodes d)" "eid E = i"
    using getElement_in_nodes [OF Some] getElement_eid [OF Some] by auto
  have dE: "distinct (ids E)" by (rule distinct_subtree [OF assms E(1)])
  have idsE: "ids E = i # map eid (descendants E)"
    using E(2) by (simp add: ids_def nodes_eq [of E])
  have node: "nodeOf d (eid X) = Some (self X)" if "X \<in> set (descendants E)" for X
  proof -
    have "X \<in> set (nodes d)"
      using that descendants_subset [of E] nodes_subtree [OF E(1)] by blast
    then show ?thesis
      using getElement_Some_iff [OF assms, of "eid X" X] by (simp add: nodeOf_def)
  qed
  show ?thesis
  proof
    assume "x \<in> set (querySelectorAll d i sel)"
    then obtain X where X: "X \<in> set (descendants E)" "matches sel (self X)" "eid X = x"
      by (auto simp: querySelectorAll_def Some)
    then have "x \<in> set (subtreeIds d i)" "x \<noteq> i"
      using dE idsE by (auto simp: subtreeIds_def Some)
    then show "x \<in> set (subtreeIds d i) \<and> x \<noteq> i \<and> (\<exists>n. nodeOf d x = Some n \<and> matches sel n)"
      using node [OF X(1)] X(2,3) by auto
  next
    assume a: "x \<in> set (subtreeIds d i) \<and> x \<noteq> i \<and> (\<exists>n. nodeOf d x = Some n \<and> matches sel n)"
    then obtain X where X: "X \<in> set (descendants E)" "eid X = x"
      using idsE by (auto simp: subtreeIds_def Some)
    then have "matches sel (self X)" using node [OF X(1)] a by auto
    then show "x \<in> set (querySelectorAll d i sel)"
      using X by (auto simp: querySelectorAll_def Some)
  qed
qed

lemma querySelector_None_iff:
  "querySelector d i sel = None \<longleftrightarrow> querySelectorAll d i sel = []"
  by (simp add: querySelector_hd split: list.splits)

lemma querySelector_SomeD:
  assumes "distinct (ids d)" and "querySelector d i sel = Some x"
  shows "x \<in> set (subtreeIds d i)" and "x \<noteq> i" and "\<exists>n. nodeOf d x = Some n \<and> matches sel n"
proof -
  have "x \<in> set (querySelectorAll d i sel)"
    using assms(2) by (auto simp: querySelector_hd split: list.splits)
  then show "x \<in> set (subtreeIds d i)" and "x \<noteq> i" and "\<exists>n. nodeOf d x = Some n \<and> matches sel n"
    using querySelectorAll_iff [OF assms(1)] by auto
qed

lemma querySelector_leaf: "childIds d i = [] \<Longrightarrow> querySelector d i sel = None"
  by (cases "getElement d i") (simp_all add: querySelector_def childIds_def firstMatch_def descendants_def)


lemma move_new_parent_query:
  assumes "movable d p c" and "c \<notin> set (subtreeIds d p)"
  shows "querySelector (move p c d) p sel =
           (case querySelector d p sel of Some x \<Rightarrow> Some x | None \<Rightarrow> matchIn d c sel)"
  unfolding matchIn_def by (simp add: move_new_parent_obs(3) [OF assms])

lemma matchIn_same:
  assumes "getElement d' c = getElement d c"
  shows "matchIn d' c sel = matchIn d c sel"
  using assms by (cases "getElement d c") (simp_all add: matchIn_def nodeOf_def querySelector_def)

text \<open>Two children \<open>a\<close> and \<open>b\<close> of \<open>u\<close> are appended, in this order, to \<open>p\<close>, which is outside
  \<open>u\<close> and does not hold \<open>u\<close>, \<open>a\<close> or \<open>b\<close>.\<close>

lemma two_moves:
  assumes d: "distinct (ids d)"
    and a: "a \<in> set (childIds d u)" and b: "b \<in> set (childIds d u)" and ab: "a \<noteq> b"
    and p: "p \<in> set (ids d)" "p \<notin> set (subtreeIds d u)"
    and np: "a \<notin> set (subtreeIds d p)" "b \<notin> set (subtreeIds d p)"
  shows "movable d p a" and "movable (move p a d) p b"
    and "distinct (ids (move p b (move p a d)))"
    and "set (ids (move p b (move p a d))) = set (ids d)"
    and "eid (move p b (move p a d)) = eid d"
    and "\<And>i. nodeOf (move p b (move p a d)) i = nodeOf d i"
    and "childIds (move p b (move p a d)) p = childIds d p @ [a, b]"
    and "childIds (move p b (move p a d)) u = filter (\<lambda>x. x \<noteq> b) (filter (\<lambda>x. x \<noteq> a) (childIds d u))"
    and "subtreeIds (move p b (move p a d)) p = subtreeIds d p @ subtreeIds d a @ subtreeIds d b"
    and "set (subtreeIds (move p b (move p a d)) u)
           \<subseteq> set (subtreeIds d u) - set (subtreeIds d a) - set (subtreeIds d b)"
    and "\<And>sel. querySelector (move p b (move p a d)) p sel =
           (case querySelector d p sel of
              Some x \<Rightarrow> Some x
            | None \<Rightarrow> (case matchIn d a sel of Some x \<Rightarrow> Some x | None \<Rightarrow> matchIn d b sel))"
    and "\<And>sel x. querySelector d u sel = Some x \<Longrightarrow> x \<notin> set (subtreeIds d a) \<Longrightarrow>
            x \<notin> set (subtreeIds d b) \<Longrightarrow> querySelector (move p b (move p a d)) u sel = Some x"
    and "\<And>sel. querySelectorAll (move p b (move p a d)) u sel =
           filter (\<lambda>x. x \<notin> set (subtreeIds d b)) (filter (\<lambda>x. x \<notin> set (subtreeIds d a))
             (querySelectorAll d u sel))"
    and "\<And>i. i \<in> set (subtreeIds d a) \<union> set (subtreeIds d b) \<Longrightarrow>
            getElement (move p b (move p a d)) i = getElement d i"
proof -
  let ?d1 = "move p a d"
  let ?d2 = "move p b ?d1"
  note ca = child_subtree [OF d a] and cb = child_subtree [OF d b]
  have A: "a \<noteq> eid d" using child_facts [OF d a] by metis
  have B: "b \<noteq> eid d" using child_facts [OF d b] by metis
  have dis: "set (subtreeIds d a) \<inter> set (subtreeIds d b) = {}"
    by (rule siblings_disjoint [OF d a b ab])
  show m1: "movable d p a"
    using d ca(1,4) A p by (auto simp: movable_def)
  note i1 = move_ids [OF m1]
  have pa: "p \<notin> set (subtreeIds d a)" "p \<notin> set (subtreeIds d b)"
    using p(2) ca(1) cb(1) by auto
  have ba: "b \<notin> set (subtreeIds d a)" "a \<notin> set (subtreeIds d b)"
    using dis ca(3) cb(3) by auto
  note sb = move_same_obs [OF m1, of b] and sa = move_same_obs [OF m1, of a]
  have sb': "a \<notin> set (subtreeIds d b) \<and> p \<notin> set (subtreeIds d b)" using ba pa by simp
  have gb: "getElement ?d1 i = getElement d i" if "i \<in> set (subtreeIds d a) \<or> i = b" for i
    using that move_getElement_same [OF m1, of i] sb' by auto
  have sub_b1: "subtreeIds ?d1 b = subtreeIds d b"
    using gb [of b] by (simp add: subtreeIds_def)
  note n1 = move_new_parent_obs [OF m1 np(1)]
  note o1 = move_old_parent_obs [OF m1 a p(2)]
  show m2: "movable ?d1 p b"
    using i1 cb(4) B p(1) pa(2) by (simp add: movable_def sub_b1)
  note i2 = move_ids [OF m2]
  show "distinct (ids ?d2)" by (rule i2(1))
  show "set (ids ?d2) = set (ids d)" using i1(2) i2(2) by simp
  show "eid ?d2 = eid d" using i1(3) i2(3) by simp
  show "nodeOf ?d2 i = nodeOf d i" for i
    by (simp add: move_nodeOf [OF m1] move_nodeOf [OF m2])
  have b1: "b \<in> set (childIds ?d1 u)" using b ab by (simp add: o1(1))
  have np2: "b \<notin> set (subtreeIds ?d1 p)" using np(2) ba(1) by (simp add: n1(2))
  have pu1: "p \<notin> set (subtreeIds ?d1 u)" using o1(2) p(2) by auto
  note n2 = move_new_parent_obs [OF m2 np2]
  note o2 = move_old_parent_obs [OF m2 b1 pu1]
  show "childIds ?d2 p = childIds d p @ [a, b]" by (simp add: n2(1) n1(1))
  show "childIds ?d2 u = filter (\<lambda>x. x \<noteq> b) (filter (\<lambda>x. x \<noteq> a) (childIds d u))"
    by (simp add: o2(1) o1(1))
  show "subtreeIds ?d2 p = subtreeIds d p @ subtreeIds d a @ subtreeIds d b"
    by (simp add: n2(2) n1(2) sub_b1)
  show "set (subtreeIds ?d2 u) \<subseteq> set (subtreeIds d u) - set (subtreeIds d a) - set (subtreeIds d b)"
    using o2(2) o1(2) by (auto simp: sub_b1)
  have mb: "matchIn ?d1 b sel = matchIn d b sel" for sel
    by (rule matchIn_same) (simp add: gb)
  show "querySelector ?d2 p sel =
           (case querySelector d p sel of
              Some x \<Rightarrow> Some x
            | None \<Rightarrow> (case matchIn d a sel of Some x \<Rightarrow> Some x | None \<Rightarrow> matchIn d b sel))" for sel
    by (simp add: move_new_parent_query [OF m2 np2] move_new_parent_query [OF m1 np(1)] mb
          split: option.splits)
  show "querySelector ?d2 u sel = Some x"
    if "querySelector d u sel = Some x" "x \<notin> set (subtreeIds d a)" "x \<notin> set (subtreeIds d b)" for sel x
    using o2(3) [OF o1(3) [OF that(1,2)]] that(3) by (simp add: sub_b1)
  show "querySelectorAll ?d2 u sel =
           filter (\<lambda>x. x \<notin> set (subtreeIds d b)) (filter (\<lambda>x. x \<notin> set (subtreeIds d a))
             (querySelectorAll d u sel))" for sel
    by (simp add: o2(4) o1(4) sub_b1)
  show "getElement ?d2 i = getElement d i" if "i \<in> set (subtreeIds d a) \<union> set (subtreeIds d b)" for i
  proof -
    have s1: "subtreeIds ?d1 i = subtreeIds d i" if "i \<in> set (subtreeIds d a) \<or> i = b" for i
      using gb [OF that] by (simp add: subtreeIds_def)
    from \<open>i \<in> set (subtreeIds d a) \<union> set (subtreeIds d b)\<close> show ?thesis
    proof
      assume ia: "i \<in> set (subtreeIds d a)"
      have gi: "getElement ?d1 i = getElement d i" using gb ia by simp
      have "set (subtreeIds d i) \<subseteq> set (subtreeIds d a)"
      proof (cases "getElement d a")
        case None
        with ia show ?thesis by (simp add: subtreeIds_def)
      next
        case (Some Ae)
        then have "getElement d i = getElement Ae i"
          using getElement_subtree [OF d Some] ia by (simp add: subtreeIds_def)
        then show ?thesis
          using subtreeIds_subset [of Ae i] by (simp add: subtreeIds_def Some)
      qed
      then have "b \<notin> set (subtreeIds ?d1 i)" "p \<notin> set (subtreeIds ?d1 i)"
        using ba(1) pa(1) s1 [of i] ia by auto
      then show ?thesis
        using move_getElement_same [OF m2, of i] gi by simp
    next
      assume "i \<in> set (subtreeIds d b)"
      then have ib: "i \<in> set (subtreeIds ?d1 b)" by (simp add: sub_b1)
      have "getElement ?d1 i = getElement d i"
      proof -
        have "i \<notin> set (subtreeIds d a)" using dis \<open>i \<in> set (subtreeIds d b)\<close> by auto
        obtain Be where Be: "getElement d b = Some Be"
          using \<open>i \<in> set (subtreeIds d b)\<close> by (cases "getElement d b") (auto simp: subtreeIds_def)
        have "getElement ?d1 b = Some Be" using gb [of b] Be by simp
        then have "getElement ?d1 i = getElement Be i"
          using getElement_subtree [OF i1(1), of b Be i] ib by (simp add: subtreeIds_def)
        moreover have "getElement d i = getElement Be i"
          using getElement_subtree [OF d Be, of i] \<open>i \<in> set (subtreeIds d b)\<close> by (simp add: subtreeIds_def Be)
        ultimately show ?thesis by simp
      qed
      then show ?thesis
        using move_getElement_same [OF m2, of i] ib by simp
    qed
  qed
qed


lemma self_in_subtreeIds: "i \<in> set (ids d) \<Longrightarrow> i \<in> set (subtreeIds d i)"
proof -
  assume "i \<in> set (ids d)"
  then obtain E where E: "getElement d i = Some E"
    using getElement_None_iff [of d i] by (cases "getElement d i") auto
  then show ?thesis
    using getElement_eid [OF E] root_in_ids [of E] by (simp add: subtreeIds_def)
qed

lemma doc_setters [simp]:
  "closedDoc (setAttribute j a v d) dd w sm k r = closedDoc d dd w sm k r"
  "closedDoc (removeAttribute j a d) dd w sm k r = closedDoc d dd w sm k r"
  "closedDoc (setStyle j st v d) dd w sm k r = closedDoc d dd w sm k r"
  "closedDoc (addEventListener j ty l d) dd w sm k r = closedDoc d dd w sm k r"
  "closedDoc (removeEventListener j ty l d) dd w sm k r = closedDoc d dd w sm k r"
  "closedDoc (classList_add j ''menu-open'' d) dd w sm k r = closedDoc d dd w sm k r"
  "closedDoc (classList_remove j ''menu-open'' d) dd w sm k r = closedDoc d dd w sm k r"
  "openedDoc (setAttribute j a v d) dd w sm k r = openedDoc d dd w sm k r"
  "openedDoc (removeAttribute j a d) dd w sm k r = openedDoc d dd w sm k r"
  "openedDoc (setStyle j st v d) dd w sm k r = openedDoc d dd w sm k r"
  "openedDoc (addEventListener j ty l d) dd w sm k r = openedDoc d dd w sm k r"
  "openedDoc (removeEventListener j ty l d) dd w sm k r = openedDoc d dd w sm k r"
  "openedDoc (classList_add j ''menu-open'' d) dd w sm k r = openedDoc d dd w sm k r"
  "openedDoc (classList_remove j ''menu-open'' d) dd w sm k r = openedDoc d dd w sm k r"
  by (simp_all add: closedDoc_def openedDoc_def)

text \<open>The two \<open>appendChild\<close> calls of \<open>open\<close> on a closed document.\<close>

lemma relocation:
  assumes "closedDoc d dd w sm k r"
  shows "movable d w k" and "movable (move w k d) w r"
    and "openedDoc (move w r (move w k d)) dd w sm k r"
    and "eid (move w r (move w k d)) = eid d"
    and "set (ids (move w r (move w k d))) = set (ids d)"
    and "\<And>i. nodeOf (move w r (move w k d)) i = nodeOf d i"
    and "\<And>sel. querySelector (move w r (move w k d)) r sel = querySelector d r sel"
    and "\<And>sel x. querySelector d r sel = Some x \<Longrightarrow> x \<noteq> k"
proof -
  let ?d' = "move w r (move w k d)"
  have d: "distinct (ids d)" and w: "w \<in> set (ids d)" "childIds d w = []" "w \<notin> set (subtreeIds d dd)"
    and q: "querySelector d dd (Tag ''summary'') = Some sm"
      "querySelector d dd (Class ''size-guide-drawer__backdrop'') = Some k"
      "querySelectorAll d dd (Class ''size-guide-drawer'') = [r]"
    and c: "sm \<in> set (childIds d dd)" "k \<in> set (childIds d dd)" "r \<in> set (childIds d dd)"
    and ne: "sm \<noteq> k" "sm \<noteq> r" "k \<noteq> r"
    using assms by (auto simp: closedDoc_def)
  note ck = child_subtree [OF d c(2)] and cr = child_subtree [OF d c(3)] and cs = child_subtree [OF d c(1)]
  have sw: "subtreeIds d w = [w]" by (rule subtreeIds_leaf [OF w(1,2)])
  have kw: "k \<notin> set (subtreeIds d w)" "r \<notin> set (subtreeIds d w)"
    using sw ck(1,3) cr(1,3) w(3) by auto
  note tm = two_moves [OF d c(2) c(3) ne(3) w(1) w(3) kw]
  show "movable d w k" by (rule tm(1))
  show "movable (move w k d) w r" by (rule tm(2))
  show "eid ?d' = eid d" by (rule tm(5))
  show "set (ids ?d') = set (ids d)" by (rule tm(4))
  show "nodeOf ?d' i = nodeOf d i" for i by (rule tm(6))
  show "querySelector ?d' r sel = querySelector d r sel" for sel
    using tm(14) [of r] cr(3) by (simp add: querySelector_def)
  have dkr: "set (subtreeIds d k) \<inter> set (subtreeIds d r) = {}"
    by (rule siblings_disjoint [OF d c(2) c(3) ne(3)])
  show "x \<noteq> k" if "querySelector d r sel = Some x" for sel x
    using querySelector_SomeD(1) [OF d that] dkr ck(3) by auto
  have ddw: "dd \<noteq> w" using self_in_subtreeIds [OF ck(5)] w(3) by auto
  have 1: "childIds ?d' w = [k, r]" by (simp add: tm(7) w(2))
  have 2: "w \<notin> set (subtreeIds ?d' dd)" using tm(10) w(3) by auto
  have 3: "dd \<notin> set (subtreeIds ?d' w)" using ddw ck(2) cr(2) by (simp add: tm(9) sw)
  have 4: "k \<notin> set (subtreeIds ?d' dd)" "r \<notin> set (subtreeIds ?d' dd)"
    using tm(10) ck(3) cr(3) by auto
  have "sm \<notin> set (subtreeIds d k)" "sm \<notin> set (subtreeIds d r)"
    using siblings_disjoint [OF d c(1) c(2) ne(1)] siblings_disjoint [OF d c(1) c(3) ne(2)] cs(3)
    by auto
  then have 5: "querySelector ?d' dd (Tag ''summary'') = Some sm"
    using tm(12) [OF q(1)] by simp
  have 6: "querySelectorAll ?d' dd (Class ''size-guide-drawer'') = []"
    using cr(3) by (simp add: tm(13) q(3))
  obtain n where n: "nodeOf d k = Some n" "matches (Class ''size-guide-drawer__backdrop'') n"
    using querySelector_SomeD(3) [OF d q(2)] by blast
  then have mk: "matchIn d k (Class ''size-guide-drawer__backdrop'') = Some k"
    by (simp add: matchIn_def)
  have 7: "querySelector ?d' w (Class ''size-guide-drawer__backdrop'') = Some k"
    by (simp add: tm(11) querySelector_leaf [OF w(2)] mk)
  have all: "x \<in> set (querySelectorAll d dd (Class ''size-guide-drawer'')) \<longleftrightarrow>
       x \<in> set (subtreeIds d dd) \<and> x \<noteq> dd \<and> (\<exists>n. nodeOf d x = Some n \<and> matches (Class ''size-guide-drawer'') n)"
    for x by (rule querySelectorAll_iff [OF d])
  have "\<not> matches (Class ''size-guide-drawer'') n"
    using all [of k] n(1) ck(1,2,3) ne(3) by (auto simp: q(3))
  moreover have "querySelector d k (Class ''size-guide-drawer'') = None"
  proof (rule ccontr)
    assume "querySelector d k (Class ''size-guide-drawer'') \<noteq> None"
    then obtain y where y: "querySelector d k (Class ''size-guide-drawer'') = Some y" by auto
    note yd = querySelector_SomeD [OF d y]
    have "y \<in> set (querySelectorAll d dd (Class ''size-guide-drawer''))"
      using yd ck(1,2) by (auto simp: all)
    then have "y = r" by (simp add: q(3))
    with yd(1) dkr cr(3) show False by auto
  qed
  ultimately have mk': "matchIn d k (Class ''size-guide-drawer'') = None"
    using n(1) by (simp add: matchIn_def)
  have "r \<in> set (querySelectorAll d dd (Class ''size-guide-drawer''))" by (simp add: q(3))
  then have mr: "matchIn d r (Class ''size-guide-drawer'') = Some r"
    by (auto simp: all matchIn_def)
  have 8: "querySelector ?d' w (Class ''size-guide-drawer'') = Some r"
    by (simp add: tm(11) querySelector_leaf [OF w(2)] mk' mr)
  have 9: "sm \<in> set (childIds ?d' dd)" using c(1) ne by (simp add: tm(8))
  show "openedDoc ?d' dd w sm k r"
    using tm(3) 1 2 3 4 5 6 7 8 9 ne by (simp add: openedDoc_def)
qed


text \<open>The two \<open>appendChild\<close> calls of the close continuation on an open document.\<close>

lemma restoration:
  assumes "openedDoc d dd w sm k r"
  shows "movable d dd r" and "movable (move dd r d) dd k"
    and "distinct (ids (move dd k (move dd r d)))"
    and "eid (move dd k (move dd r d)) = eid d"
    and "set (ids (move dd k (move dd r d))) = set (ids d)"
    and "\<And>i. nodeOf (move dd k (move dd r d)) i = nodeOf d i"
    and "childIds (move dd k (move dd r d)) dd = childIds d dd @ [r, k]"
    and "childIds (move dd k (move dd r d)) w = []"
    and "querySelector (move dd k (move dd r d)) dd (Tag ''summary'') = Some sm"
proof -
  have d: "distinct (ids d)" and w: "childIds d w = [k, r]" "dd \<notin> set (subtreeIds d w)"
    and n: "r \<notin> set (subtreeIds d dd)" "k \<notin> set (subtreeIds d dd)"
    and q: "querySelector d dd (Tag ''summary'') = Some sm"
    and c: "sm \<in> set (childIds d dd)" and ne: "r \<noteq> k"
    using assms by (auto simp: openedDoc_def)
  have cr: "r \<in> set (childIds d w)" and ck: "k \<in> set (childIds d w)" using w(1) by simp_all
  have dd: "dd \<in> set (ids d)" using child_subtree(5) [OF d c] .
  note tm = two_moves [OF d cr ck ne dd w(2) n]
  show "movable d dd r" by (rule tm(1))
  show "movable (move dd r d) dd k" by (rule tm(2))
  show "distinct (ids (move dd k (move dd r d)))" by (rule tm(3))
  show "eid (move dd k (move dd r d)) = eid d" by (rule tm(5))
  show "set (ids (move dd k (move dd r d))) = set (ids d)" by (rule tm(4))
  show "nodeOf (move dd k (move dd r d)) i = nodeOf d i" for i by (rule tm(6))
  show "childIds (move dd k (move dd r d)) dd = childIds d dd @ [r, k]" by (rule tm(7))
  show "childIds (move dd k (move dd r d)) w = []" using ne by (simp add: tm(8) w(1))
  show "querySelector (move dd k (move dd r d)) dd (Tag ''summary'') = Some sm"
    by (simp add: tm(11) q)
qed

section \<open>The gallery\<close>

lemma ids_galleryPage:
  "ids (galleryPage fullDisplay) = [0, 20, 2, 3, 4, 5, 6, 7, 8, 9, 10, 11, 12, 13, 14, 15, 16, 17, 18, 19]"
  by (simp add: galleryPage_def fullDisplay_def zoomButton_def ids_def)

subsection \<open>Activating the active index\<close>

text \<open>
  Claim C7. \<open>switchMainImage(currentIndex)\<close> is a complete no-op: the call returns the
  state it was given, so the document, the scroll requests and every field of the
  controller are unchanged.
\<close>

theorem switchMainImage_same_index: "switchMainImage g (currentIndex g) = Inr g"
  by (simp add: switchMainImage_def)

subsection \<open>The navigation buttons\<close>

text \<open>
  Claim C3. With both navigation buttons present (two elements of the document) and the
  scroll container present, \<open>updateNavigationState()\<close> returns, and afterwards the prev
  button is disabled iff \<open>scrollLeft \<le> 0\<close> and the next button is disabled iff
  \<open>scrollLeft \<ge> scrollWidth - clientWidth - 1\<close>.
\<close>

theorem updateNavigationState_disabled:
  assumes "prevBtn g = Some p" and "nextBtn g = Some n" and "p \<noteq> n"
    and "thumbnailWrapper g = Some w"
    and "p \<in> set (ids (doc g))" and "n \<in> set (ids (doc g))"
  shows "\<exists>g'. updateNavigationState g = Inr g'
     \<and> (isDisabled (doc g') p \<longleftrightarrow> scrollLeft (layout g w) \<le> 0)
     \<and> (isDisabled (doc g') n \<longleftrightarrow>
          scrollLeft (layout g w) \<ge> real_of_int (scrollWidth (layout g w) - clientWidth (layout g w) - 1))"
  using assms
  by (simp add: updateNavigationState_def Let_def isDisabled_setDisabled)

text \<open>On the example page the strip is at its start: prev is disabled, next is not.\<close>

theorem updateNavigationState_disabled_witness:
  "prevBtn (exampleGallery fullDisplay) = Some 7 \<and> nextBtn (exampleGallery fullDisplay) = Some 14
   \<and> (\<exists>g'. updateNavigationState (exampleGallery fullDisplay) = Inr g'
         \<and> isDisabled (doc g') 7 \<and> \<not> isDisabled (doc g') 14)"
proof -
  let ?g = "exampleGallery fullDisplay"
  have h: "prevBtn ?g = Some 7" "nextBtn ?g = Some 14" "(7::nat) \<noteq> 14" "thumbnailWrapper ?g = Some 8"
    "7 \<in> set (ids (doc ?g))" "14 \<in> set (ids (doc ?g))"
    by (simp_all add: exampleGallery_def ids_galleryPage)
  have l: "layout ?g 8 = \<lparr>rectLeft = 0, rectRight = 300, scrollLeft = 0, scrollWidth = 640,
                      clientWidth = 300, offsetWidth = 300\<rparr>"
    by (simp add: exampleGallery_def galleryLayout_def)
  show ?thesis
    using updateNavigationState_disabled [OF h] h(1,2) by (simp add: l)
qed

subsection \<open>Keeping the selected thumbnail in view\<close>

text \<open>
  Claim C5, as stated, has the right branch fire whenever the thumbnail's right edge is
  past the container's right edge. The source tests the left edge first and the right edge
  in the \<open>else if\<close>: on a thumbnail that overflows on both sides only the left scroll is
  requested. Here the thumbnail spans \<open>-10 .. 90\<close> in a container spanning \<open>0 .. 80\<close>.
\<close>

theorem ensureThumbnailVisible_right_edge_counterexample:
  "item (thumbnailItems narrowGallery) 0 = Some 10
   \<and> rectRight (layout narrowGallery 10) > rectRight (layout narrowGallery 8)
   \<and> (case ensureThumbnailVisible narrowGallery 0 of
         Inl e \<Rightarrow> False
       | Inr g' \<Rightarrow> scrollRequests g' = [(8, - 20)]
                  \<and> (8, rectRight (layout narrowGallery 10) - rectRight (layout narrowGallery 8) + 10)
                       \<notin> set (scrollRequests g'))"
  by (simp add: narrowGallery_def exampleGallery_def narrowLayout_def item_def box_def
        ensureThumbnailVisible_def scrollBy_def)

text \<open>
  Claim C5, amended. For an index with an existing thumbnail (and the scroll container
  present), \<open>ensureThumbnailVisible\<close> requests a scroll by
  \<open>thumbnail.left - container.left - 10\<close> when the thumbnail's left edge is before the
  container's left edge; by \<open>thumbnail.right - container.right + 10\<close> when the left edge is
  not before the container's and the right edge is past the container's right edge; none
  when the thumbnail is within the bounds; and at most one request per call.
\<close>

theorem ensureThumbnailVisible_scroll:
  assumes "item (thumbnailItems g) i = Some t" and "thumbnailWrapper g = Some w"
  shows "(rectLeft (layout g t) < rectLeft (layout g w) \<longrightarrow>
            ensureThumbnailVisible g i
              = Inr (scrollBy w (rectLeft (layout g t) - rectLeft (layout g w) - 10) g))
       \<and> (rectLeft (layout g w) \<le> rectLeft (layout g t) \<and> rectRight (layout g t) > rectRight (layout g w) \<longrightarrow>
            ensureThumbnailVisible g i
              = Inr (scrollBy w (rectRight (layout g t) - rectRight (layout g w) + 10) g))
       \<and> (rectLeft (layout g w) \<le> rectLeft (layout g t) \<and> rectRight (layout g t) \<le> rectRight (layout g w) \<longrightarrow>
            ensureThumbnailVisible g i = Inr g)
       \<and> (\<exists>g'. ensureThumbnailVisible g i = Inr g'
             \<and> (scrollRequests g' = scrollRequests g \<or> (\<exists>a. scrollRequests g' = scrollRequests g @ [(w, a)])))"
  using assms by (auto simp: ensureThumbnailVisible_def Let_def scrollBy_def)

text \<open>The second thumbnail of the narrow strip spans \<open>100 .. 200\<close>: one scroll to the
  right, by \<open>200 - 80 + 10\<close>.\<close>

theorem ensureThumbnailVisible_scroll_witness:
  "item (thumbnailItems narrowGallery) 1 = Some 12 \<and> thumbnailWrapper narrowGallery = Some 8
   \<and> (\<exists>g'. ensureThumbnailVisible narrowGallery 1 = Inr g' \<and> scrollRequests g' = [(8, 130)])"
proof -
  have h: "item (thumbnailItems narrowGallery) 1 = Some 12" "thumbnailWrapper narrowGallery = Some 8"
    by (simp_all add: narrowGallery_def exampleGallery_def item_def)
  have l: "layout narrowGallery 12 = box 100 200"
    "layout narrowGallery 8 = \<lparr>rectLeft = 0, rectRight = 80, scrollLeft = 10, scrollWidth = 210,
                      clientWidth = 80, offsetWidth = 80\<rparr>"
    "scrollRequests narrowGallery = []"
    by (simp_all add: narrowGallery_def exampleGallery_def narrowLayout_def)
  show ?thesis
    using ensureThumbnailVisible_scroll [OF h] h by (simp add: l box_def scrollBy_def)
qed

lemma parseInt_empty: "parseInt [] = None"
  by (simp add: parseInt_def)

lemma init_css_fields:
  assumes "init g0 = Inr g"
  shows "thumbnailsPerView g = thumbnailsPerView g0 \<and> thumbnailSize g = thumbnailSize g0
       \<and> thumbnailGap g = thumbnailGap g0 \<and> currentIndex g = currentIndex g0"
  using assms
  by (auto simp: init_def updateNavigationState_def setupScrollListener_def setupMainImageSwitching_def
        setupThumbnailNavigation_def setThumbnailContainerAttributes_def Let_def
      split: option.splits sum.splits)

lemma galleryPage_queries:
  "querySelector (galleryPage fullDisplay) 20 (Class ''thumbnail-carousel-wrapper'') = Some 8"
  by (simp add: galleryPage_def fullDisplay_def zoomButton_def querySelector_def getElement_def
        firstMatch_def descendants_def mkNode_def)

lemma constructor_returns:
  "\<exists>g. constructor (galleryBrowser fullDisplay) 20 = Inr g"
  using galleryPage_queries
  by (simp add: constructor_def init_def updateNavigationState_def setupScrollListener_def
        setupMainImageSwitching_def setupThumbnailNavigation_def galleryBrowser_def
        Let_def split: option.splits)

lemma digits: "parseInt ''4'' = Some 4" "parseInt '' 80px'' = Some 80" "parseInt ''0'' = Some 0"
  by (simp_all add: parseInt_def isWhiteSpace_def digitValue_def digitsValue_def Let_def)


subsection \<open>The constructor's CSS custom properties\<close>

text \<open>
  Claim C9, as stated, has the default apply exactly when the property is absent or
  non-numeric. The source writes \<open>parseInt(...) || default\<close>, and zero is falsy: on the
  example page \<open>--thumbnail-gap\<close> is \<open>0\<close>, present and numeric, and \<open>thumbnailGap\<close> is 10.
\<close>

theorem constructor_zero_gap_counterexample:
  "computedStyle (galleryBrowser fullDisplay) 20 ''--thumbnail-gap'' = Some ''0''
   \<and> parseInt ''0'' = Some 0
   \<and> (case constructor (galleryBrowser fullDisplay) 20 of
         Inl e \<Rightarrow> False
       | Inr g \<Rightarrow> thumbnailGap g = 10)"
proof -
  obtain g where g: "constructor (galleryBrowser fullDisplay) 20 = Inr g"
    using constructor_returns by blast
  have "thumbnailGap g = 10"
    using init_css_fields [OF g [unfolded constructor_def]]
    by (simp add: cssInt_def galleryBrowser_def galleryStyle_def getPropertyValue_def digits orDefault_def)
  moreover have "computedStyle (galleryBrowser fullDisplay) 20 ''--thumbnail-gap'' = Some ''0''"
    by (simp add: galleryBrowser_def galleryStyle_def)
  ultimately show ?thesis
    by (simp add: g digits)
qed

text \<open>
  Claim C9, amended. At construction each of \<open>thumbnailsPerView\<close>, \<open>thumbnailSize\<close> and
  \<open>thumbnailGap\<close> is the integer that \<open>parseInt\<close> reads from its custom property, and
  the default (3, 100, 10) exactly when \<open>parseInt\<close> yields NaN (as it does for an absent
  property, whose value is the empty string) or zero.
\<close>

theorem constructor_css_properties:
  assumes "constructor b c = Inr g"
  shows "(cssInt b c ''--thumbnails-per-view'' = None \<or> cssInt b c ''--thumbnails-per-view'' = Some 0
            \<longrightarrow> thumbnailsPerView g = Num 3)
       \<and> (\<forall>n. cssInt b c ''--thumbnails-per-view'' = Some n \<and> n \<noteq> 0 \<longrightarrow> thumbnailsPerView g = Num n)
       \<and> (cssInt b c ''--thumbnail-size'' = None \<or> cssInt b c ''--thumbnail-size'' = Some 0
            \<longrightarrow> thumbnailSize g = 100)
       \<and> (\<forall>n. cssInt b c ''--thumbnail-size'' = Some n \<and> n \<noteq> 0 \<longrightarrow> thumbnailSize g = n)
       \<and> (cssInt b c ''--thumbnail-gap'' = None \<or> cssInt b c ''--thumbnail-gap'' = Some 0
            \<longrightarrow> thumbnailGap g = 10)
       \<and> (\<forall>n. cssInt b c ''--thumbnail-gap'' = Some n \<and> n \<noteq> 0 \<longrightarrow> thumbnailGap g = n)
       \<and> (\<forall>name. computedStyle b c name = None \<longrightarrow> cssInt b c name = None)"
  using init_css_fields [OF assms [unfolded constructor_def]]
  by (auto simp: orDefault_def cssInt_def getPropertyValue_def parseInt_empty)

text \<open>On the example page \<open>--thumbnails-per-view\<close> is \<open>4\<close> and \<open>--thumbnail-size\<close> is
  \<open>80px\<close> after a blank.\<close>

theorem constructor_css_properties_witness:
  "\<exists>g. constructor (galleryBrowser fullDisplay) 20 = Inr g
      \<and> cssInt (galleryBrowser fullDisplay) 20 ''--thumbnails-per-view'' = Some 4
      \<and> thumbnailsPerView g = Num 4
      \<and> cssInt (galleryBrowser fullDisplay) 20 ''--thumbnail-size'' = Some 80
      \<and> thumbnailSize g = 80
      \<and> computedStyle (galleryBrowser fullDisplay) 20 ''--missing'' = None"
proof -
  obtain g where g: "constructor (galleryBrowser fullDisplay) 20 = Inr g"
    using constructor_returns by blast
  have c: "cssInt (galleryBrowser fullDisplay) 20 ''--thumbnails-per-view'' = Some 4"
    "cssInt (galleryBrowser fullDisplay) 20 ''--thumbnail-size'' = Some 80"
    "computedStyle (galleryBrowser fullDisplay) 20 ''--missing'' = None"
    by (simp_all add: cssInt_def galleryBrowser_def galleryStyle_def getPropertyValue_def digits)
  show ?thesis
    using constructor_css_properties [OF g] g c by auto
qed








subsection \<open>The listeners on the page\<close>

































lemma showInt_examples: "showInt 1 = ''1''" "showInt 7 = ''7''" "showInt 2 = ''2''"
  by (simp_all add: showInt_def showNat.simps)

lemmas gallery_eval =
  switchMainImage_def switchMedia_def markActive_def retargetZoom_def ensureThumbnailVisible_def
  exampleGallery_def galleryPage_def fullDisplay_def zoomOnlyDisplay_def emptyDisplay_def zoomButton_def
  mkNode_def item_def querySelector_def getElement_def firstMatch_def descendants_def
  classList_add_def classList_remove_def setAttribute_def getAttribute_def contentSelector_def
  galleryLayout_def box_def scrollBy_def showInt_examples Let_def validIndex_def

subsection \<open>The current index\<close>


lemma switchMainImage_example:
  "case switchMainImage (exampleGallery fullDisplay) 1 of
         Inl e \<Rightarrow> False
       | Inr g' \<Rightarrow> hasClass (doc g') 12 ''active'' \<and> \<not> hasClass (doc g') 10 ''active''
            \<and> getAttribute (doc g') 5 ''on:click'' = Some ''/media-gallery/open/1''
            \<and> getAttribute (doc g') 5 ''data-current-index'' = Some ''1''
            \<and> childIds (doc g') 3 = [40, 5]"
  by (simp add: gallery_eval hasClass_def childIds_def isDigit_def)







subsection \<open>Switching when the main display lacks its shapes\<close>

lemma avoids_active [simp]:
  "avoidsClass ''active'' (AttrEq k v)"
  "avoidsClass ''active'' (Class ''product-media-container'')"
  "avoidsClass ''active'' (Class ''product-media-container__zoom-button'')"
  "avoidsClass ''active'' contentSelector"
  by (simp_all add: contentSelector_def)

lemma ensureThumbnailVisible_returns:
  assumes "item (thumbnailItems g) i = None \<or> thumbnailWrapper g \<noteq> None"
  shows "\<exists>g'. ensureThumbnailVisible g i = Inr g' \<and> doc g' = doc g"
  using assms
  by (auto simp: ensureThumbnailVisible_def scrollBy_def Let_def split: option.splits)

text \<open>
  Claim C2, amended. Let \<open>i\<close> differ from \<open>currentIndex\<close>, the hidden media pool be present,
  and the scroll container be present if thumbnail \<open>i\<close> exists. If the main-display container
  is absent, \<open>switchMainImage(i)\<close> returns and the document afterwards is the one with only
  the active marker moved. The same holds if the main-display container is present without a
  \<open>.product-media-container\<close> and the pool holds no media node for \<open>i\<close>. If the
  main-display container and its \<open>.product-media-container\<close> are present and the latter
  holds no content wrapper, \<open>switchMainImage(i)\<close> returns and the document afterwards is
  the one with the active marker moved and, when the hidden media node for \<open>i\<close> exists, an
  existing zoom button pointed at \<open>i\<close> (its \<open>on:click\<close> and \<open>data-current-index\<close>
  attributes). Only the case of a main-display container without a
  \<open>.product-media-container\<close> while the media node for \<open>i\<close> exists is left out.
\<close>

theorem switchMainImage_absent_shapes:
  assumes "i \<noteq> currentIndex g" and "hiddenMedia g = Some hm"
    and "item (thumbnailItems g) i = None \<or> thumbnailWrapper g \<noteq> None"
  shows "(mainImageContainer g = None \<longrightarrow>
            (\<exists>g'. switchMainImage g i = Inr g' \<and> doc g' = markActive g i))
       \<and> (\<forall>mic. mainImageContainer g = Some mic
               \<and> querySelector (doc g) mic (Class ''product-media-container'') = None
               \<and> querySelector (doc g) hm (AttrEq ''data-media-index'' (showInt i)) = None \<longrightarrow>
            (\<exists>g'. switchMainImage g i = Inr g' \<and> doc g' = markActive g i))
       \<and> (\<forall>mic mc. mainImageContainer g = Some mic
               \<and> querySelector (doc g) mic (Class ''product-media-container'') = Some mc
               \<and> querySelector (doc g) mc contentSelector = None \<longrightarrow>
            (\<exists>g'. switchMainImage g i = Inr g'
               \<and> doc g' =
                   (if querySelector (doc g) hm (AttrEq ''data-media-index'' (showInt i)) = None
                    then markActive g i
                    else retargetZoom
                           (querySelector (doc g) mc (Class ''product-media-container__zoom-button''))
                           i (markActive g i))))"
proof (intro conjI impI allI)
  assume "mainImageContainer g = None"
  then have "switchMedia g i (markActive g i) = Inr (markActive g i, nextId g)"
    using assms(2) by (simp add: switchMedia_def split: option.splits)
  then show "\<exists>g'. switchMainImage g i = Inr g' \<and> doc g' = markActive g i"
    using assms(1) ensureThumbnailVisible_returns [of "g\<lparr>doc := markActive g i, nextId := nextId g, currentIndex := i\<rparr>" i]
      assms(3)
    by (simp add: switchMainImage_def)
next
  fix mic
  assume "mainImageContainer g = Some mic
               \<and> querySelector (doc g) mic (Class ''product-media-container'') = None
               \<and> querySelector (doc g) hm (AttrEq ''data-media-index'' (showInt i)) = None"
  then have "switchMedia g i (markActive g i) = Inr (markActive g i, nextId g)"
    using assms(2) by (simp add: switchMedia_def querySelector_markActive)
  then show "\<exists>g'. switchMainImage g i = Inr g' \<and> doc g' = markActive g i"
    using assms(1) ensureThumbnailVisible_returns [of "g\<lparr>doc := markActive g i, nextId := nextId g, currentIndex := i\<rparr>" i]
      assms(3)
    by (simp add: switchMainImage_def)
next
  fix mic mc
  assume h: "mainImageContainer g = Some mic
               \<and> querySelector (doc g) mic (Class ''product-media-container'') = Some mc
               \<and> querySelector (doc g) mc contentSelector = None"
  let ?d = "if querySelector (doc g) hm (AttrEq ''data-media-index'' (showInt i)) = None
                    then markActive g i
                    else retargetZoom
                           (querySelector (doc g) mc (Class ''product-media-container__zoom-button''))
                           i (markActive g i)"
  have "\<exists>fresh. switchMedia g i (markActive g i) = Inr (?d, fresh)"
    using assms(2) h
    by (simp add: switchMedia_def querySelector_markActive Let_def split: option.splits)
  then obtain fresh where "switchMedia g i (markActive g i) = Inr (?d, fresh)" ..
  then show "\<exists>g'. switchMainImage g i = Inr g' \<and> doc g' = ?d"
    using assms(1) ensureThumbnailVisible_returns [of "g\<lparr>doc := ?d, nextId := fresh, currentIndex := i\<rparr>" i]
      assms(3)
    by (simp add: switchMainImage_def)
qed

text \<open>In the case left out, line 80 reads a property of null when the hidden media node
  exists.\<close>

lemma switchMainImage_missing_container:
  assumes "i \<noteq> currentIndex g" and "hiddenMedia g = Some hm"
    and "querySelector (doc g) hm (AttrEq ''data-media-index'' (showInt i)) = Some m"
    and "mainImageContainer g = Some mic"
    and "querySelector (doc g) mic (Class ''product-media-container'') = None"
  shows "switchMainImage g i = Inl TypeError"
  using assms
  by (simp add: switchMainImage_def switchMedia_def querySelector_markActive Let_def)


text \<open>The hypotheses on the hidden media pool and the scroll container are needed: line 74
  reads a property of a null pool, and line 123 one of a null scroll container when the
  thumbnail exists.\<close>

lemma switchMainImage_missing_pool:
  assumes "i \<noteq> currentIndex g" and "hiddenMedia g = None"
  shows "switchMainImage g i = Inl TypeError"
  using assms by (simp add: switchMainImage_def switchMedia_def)

lemma switchMedia_error: "switchMedia g i d = Inl e \<Longrightarrow> e = TypeError"
  by (auto simp: switchMedia_def Let_def split: option.splits)

lemma switchMainImage_missing_wrapper:
  assumes "i \<noteq> currentIndex g" and "item (thumbnailItems g) i = Some t" and "thumbnailWrapper g = None"
  shows "switchMainImage g i = Inl TypeError"
proof (cases "switchMedia g i (markActive g i)")
  case (Inl e)
  then show ?thesis
    using assms(1) switchMedia_error [OF Inl] by (simp add: switchMainImage_def)
next
  case (Inr p)
  then show ?thesis
    using assms by (cases p) (simp add: switchMainImage_def ensureThumbnailVisible_def)
qed

lemma zoomOnly_queries:
  "querySelector (galleryPage zoomOnlyDisplay) 2 (Class ''product-media-container'') = Some 3"
  "querySelector (galleryPage zoomOnlyDisplay) 3 contentSelector = None"
  "querySelector (galleryPage zoomOnlyDisplay) 3 (Class ''product-media-container__zoom-button'') = Some 5"
  "querySelector (galleryPage zoomOnlyDisplay) 15 (AttrEq ''data-media-index'' ''1'') = Some 18"
  "getAttribute (galleryPage zoomOnlyDisplay) 5 ''data-current-index'' = None"
  by (simp_all add: gallery_eval)

lemma emptyDisplay_queries:
  "querySelector (galleryPage emptyDisplay) 2 (Class ''product-media-container'') = None"
  "querySelector (galleryPage emptyDisplay) 15 (AttrEq ''data-media-index'' ''1'') = Some 18"
  by (simp_all add: gallery_eval)

lemma unindexed_queries:
  "querySelector (doc unindexedGallery) 2 (Class ''product-media-container'') = None"
  "querySelector (doc unindexedGallery) 15 (AttrEq ''data-media-index'' ''1'') = None"
  "querySelector (doc unindexedGallery) 15 (AttrEq ''data-media-index'' ''0'') = Some 16"
  by (simp_all add: unindexedGallery_def removeAttribute_def gallery_eval)

text \<open>The example page whose \<open>.product-media-container\<close> holds only the zoom button,
  and the page without a \<open>.product-media-container\<close> whose pool has no media node for the
  index.\<close>

theorem switchMainImage_absent_shapes_witness:
  "(1 \<noteq> currentIndex (exampleGallery zoomOnlyDisplay)
   \<and> hiddenMedia (exampleGallery zoomOnlyDisplay) = Some 15
   \<and> thumbnailWrapper (exampleGallery zoomOnlyDisplay) = Some 8
   \<and> mainImageContainer (exampleGallery zoomOnlyDisplay) = Some 2
   \<and> querySelector (doc (exampleGallery zoomOnlyDisplay)) 2 (Class ''product-media-container'') = Some 3
   \<and> querySelector (doc (exampleGallery zoomOnlyDisplay)) 3 contentSelector = None
   \<and> (\<exists>g'. switchMainImage (exampleGallery zoomOnlyDisplay) 1 = Inr g'
          \<and> doc g' = retargetZoom (Some 5) 1 (markActive (exampleGallery zoomOnlyDisplay) 1)))
   \<and> (1 \<noteq> currentIndex unindexedGallery
   \<and> hiddenMedia unindexedGallery = Some 15
   \<and> thumbnailWrapper unindexedGallery = Some 8
   \<and> mainImageContainer unindexedGallery = Some 2
   \<and> querySelector (doc unindexedGallery) 2 (Class ''product-media-container'') = None
   \<and> querySelector (doc unindexedGallery) 15 (AttrEq ''data-media-index'' (showInt 1)) = None
   \<and> (\<exists>g'. switchMainImage unindexedGallery 1 = Inr g' \<and> doc g' = markActive unindexedGallery 1))"
proof -
  let ?g = "exampleGallery zoomOnlyDisplay"
  have h: "1 \<noteq> currentIndex ?g" "hiddenMedia ?g = Some 15"
    "item (thumbnailItems ?g) 1 = None \<or> thumbnailWrapper ?g \<noteq> None"
    and f: "thumbnailWrapper ?g = Some 8" "mainImageContainer ?g = Some 2" "doc ?g = galleryPage zoomOnlyDisplay"
    by (simp_all add: exampleGallery_def)
  have u: "1 \<noteq> currentIndex unindexedGallery" "hiddenMedia unindexedGallery = Some 15"
    "item (thumbnailItems unindexedGallery) 1 = None \<or> thumbnailWrapper unindexedGallery \<noteq> None"
    and uf: "thumbnailWrapper unindexedGallery = Some 8" "mainImageContainer unindexedGallery = Some 2"
    by (simp_all add: unindexedGallery_def exampleGallery_def)
  have a: "\<exists>g'. switchMainImage ?g 1 = Inr g' \<and> doc g' = retargetZoom (Some 5) 1 (markActive ?g 1)"
    using switchMainImage_absent_shapes [OF h] f
    by (simp add: zoomOnly_queries showInt_examples)
  have b: "\<exists>g'. switchMainImage unindexedGallery 1 = Inr g' \<and> doc g' = markActive unindexedGallery 1"
    using switchMainImage_absent_shapes [OF u] uf
    by (simp add: unindexed_queries showInt_examples)
  show ?thesis
    using a b h(1,2) f u(1,2) uf
    by (simp add: zoomOnly_queries unindexed_queries showInt_examples)
qed

text \<open>
  Claim C2, as stated, allows no mutation beyond the thumbnails and no exception. On the
  page without a content wrapper the zoom button's attributes are rewritten; on the page
  whose main display has no \<open>.product-media-container\<close> the call throws a TypeError.
\<close>

theorem switchMainImage_absent_shapes_counterexample:
  "1 \<noteq> currentIndex (exampleGallery zoomOnlyDisplay)
   \<and> querySelector (doc (exampleGallery zoomOnlyDisplay)) 3 contentSelector = None
   \<and> getAttribute (doc (exampleGallery zoomOnlyDisplay)) 5 ''data-current-index'' = None
   \<and> (case switchMainImage (exampleGallery zoomOnlyDisplay) 1 of
         Inl e \<Rightarrow> False
       | Inr g' \<Rightarrow> getAttribute (doc g') 5 ''data-current-index'' = Some ''1''
                  \<and> getAttribute (doc g') 5 ''on:click'' = Some ''/media-gallery/open/1'')
   \<and> 1 \<noteq> currentIndex (exampleGallery emptyDisplay)
   \<and> querySelector (doc (exampleGallery emptyDisplay)) 2 (Class ''product-media-container'') = None
   \<and> switchMainImage (exampleGallery emptyDisplay) 1 = Inl TypeError"
proof -
  have "switchMainImage (exampleGallery emptyDisplay) 1 = Inl TypeError"
    by (rule switchMainImage_missing_container [where hm = 15 and m = 18 and mic = 2])
       (simp_all add: exampleGallery_def emptyDisplay_queries showInt_examples)
  moreover have "case switchMainImage (exampleGallery zoomOnlyDisplay) 1 of
         Inl e \<Rightarrow> False
       | Inr g' \<Rightarrow> getAttribute (doc g') 5 ''data-current-index'' = Some ''1''
                  \<and> getAttribute (doc g') 5 ''on:click'' = Some ''/media-gallery/open/1''"
    by (simp add: gallery_eval isDigit_def)
  ultimately show ?thesis
    by (simp add: exampleGallery_def zoomOnly_queries emptyDisplay_queries)
qed


section \<open>The drawer\<close>

subsection \<open>Opening a details element without a summary\<close>

text \<open>
  Claim C8. If the resolved details element has no summary, \<open>open()\<close> returns without
  throwing and the state is exactly the state before the call: no attribute is set, the
  body's overflow style is untouched, nothing is moved, no listener is attached and no
  callback is scheduled.
\<close>

theorem open_without_summary:
  assumes "querySelector (doc s) (getDetailsElement s event) (Tag ''summary'') = None"
  shows "open_drawer s event = Inr s"
  using assms by (simp add: open_drawer_def)

subsection \<open>Closing is unconditional\<close>

lemma close_details_doc:
  "doc (close_details s d) =
     setStyle (body s) ''overflow'' []
       ((case drawerWrapper s of None \<Rightarrow> (\<lambda>x. x) | Some w \<Rightarrow> classList_remove w ''menu-open'')
          (classList_remove d ''menu-open''
             (case querySelector (doc s) d (Tag ''summary'') of
                  None \<Rightarrow> doc s
                | Some summary \<Rightarrow> setAttribute summary ''aria-expanded'' ''false'' (doc s))))"
  by (simp add: close_details_def onAnimationEnd_def Let_def split: option.splits)

lemma close_details_fields:
  "body (close_details s d) = body s"
  "frameCallbacks (close_details s d) = frameCallbacks s"
  "drawerWrapper (close_details s d) = drawerWrapper s"
  "details_ref (close_details s d) = details_ref s"
  "boundBackdropClick (close_details s d) = boundBackdropClick s"
  "boundCloseClick (close_details s d) = boundCloseClick s"
  "nextFn (close_details s d) = nextFn s"
  "focusTrap (close_details s d) = focusTrap s"
  by (simp_all add: body_def close_details_doc split: option.splits)
     (simp_all add: close_details_def onAnimationEnd_def Let_def)

text \<open>
  Claim C10. \<open>close()\<close> and the Escape-key path do not test \<open>isOpen\<close>. In every state,
  after \<open>close()\<close> (on \<open>refs.details\<close>) or after Escape is released (on the details element
  resolved from the event), the body's overflow style is the empty string, the summary of
  that details element, if it has one, has \<open>aria-expanded = false\<close>, neither the details
  element nor the wrapper has the class \<open>menu-open\<close>, and one more continuation, the
  relocation and reset arrow for that details element, waits for the end of the animation.
\<close>

theorem close_unconditional:
  assumes "(s' = close_drawer s \<and> d = details_ref s)
         \<or> (s' = onKeyUp s ''Escape'' target \<and> d = getDetailsElement s target)"
  shows "getStyle (doc s') (body s') ''overflow'' = []
       \<and> (\<forall>sm. querySelector (doc s) d (Tag ''summary'') = Some sm
             \<longrightarrow> getAttribute (doc s') sm ''aria-expanded'' = Some ''false'')
       \<and> \<not> hasClass (doc s') d ''menu-open''
       \<and> (\<forall>w. drawerWrapper s = Some w \<longrightarrow> \<not> hasClass (doc s') w ''menu-open'')
       \<and> (\<exists>el dr bk. animationCallbacks s' = animationCallbacks s @ [(el, CloseFinish d dr bk)])
       \<and> frameCallbacks s' = frameCallbacks s"
proof -
  from assms have s': "s' = close_details s d"
    by (auto simp: close_drawer_def onKeyUp_def)
  have 1: "getStyle (doc s') (body s') ''overflow'' = []"
    by (simp add: s' close_details_fields close_details_doc getter_simps body_def split: option.splits)
  have 2: "getAttribute (doc s') sm ''aria-expanded'' = Some ''false''"
    if "querySelector (doc s) d (Tag ''summary'') = Some sm" for sm
    using that querySelector_in_ids [OF that]
    by (simp add: s' close_details_doc getter_simps split: option.splits)
  have 3: "\<not> hasClass (doc s') d ''menu-open''"
    by (simp add: s' close_details_doc getter_simps split: option.splits)
  have 4: "\<not> hasClass (doc s') w ''menu-open''" if "drawerWrapper s = Some w" for w
    using that by (simp add: s' close_details_doc getter_simps split: option.splits)
  have 5: "\<exists>el dr bk. animationCallbacks s' = animationCallbacks s @ [(el, CloseFinish d dr bk)]"
    by (simp add: s' close_details_def onAnimationEnd_def Let_def)
  show ?thesis
    using 1 2 3 4 5 by (simp add: s' close_details_fields)
qed


lemmas drawer_eval =
  exampleDrawer_def bareDrawer_def connectedCallback_def createDrawerWrapper_def newDrawer_def
  drawerPage_def barePage_def body_def mkNode_def setters_def
  querySelector_def querySelectorAll_def getElement_def firstMatch_def descendants_def
  getDetailsElement_def ids_def

lemma bareDrawer_query:
  "querySelector (doc bareDrawer) (getDetailsElement bareDrawer None) (Tag ''summary'') = None"
  by (simp add: drawer_eval)

text \<open>The page whose details element has no summary.\<close>

theorem open_without_summary_witness:
  "querySelector (doc bareDrawer) (getDetailsElement bareDrawer None) (Tag ''summary'') = None
   \<and> open_drawer bareDrawer None = Inr bareDrawer"
  using open_without_summary [OF bareDrawer_query] bareDrawer_query by simp

lemma exampleDrawer_facts:
  "details_ref exampleDrawer = 3"
  "drawerWrapper exampleDrawer = Some 9"
  "querySelector (doc exampleDrawer) 3 (Tag ''summary'') = Some 4"
  "\<not> isOpen exampleDrawer"
  "animationCallbacks exampleDrawer = []"
  "frameCallbacks exampleDrawer = []"
  by (simp_all add: drawer_eval isOpen_def hasAttribute_def getAttribute_def)

text \<open>The example drawer has never been opened; \<open>close()\<close> still does all of it.\<close>

theorem close_unconditional_witness:
  "\<not> isOpen exampleDrawer
   \<and> querySelector (doc exampleDrawer) 3 (Tag ''summary'') = Some 4
   \<and> drawerWrapper exampleDrawer = Some 9
   \<and> getStyle (doc (close_drawer exampleDrawer)) (body (close_drawer exampleDrawer)) ''overflow'' = []
   \<and> getAttribute (doc (close_drawer exampleDrawer)) 4 ''aria-expanded'' = Some ''false''
   \<and> \<not> hasClass (doc (close_drawer exampleDrawer)) 3 ''menu-open''
   \<and> \<not> hasClass (doc (close_drawer exampleDrawer)) 9 ''menu-open''
   \<and> (\<exists>el dr bk. animationCallbacks (close_drawer exampleDrawer) = [(el, CloseFinish 3 dr bk)])"
  using close_unconditional [of "close_drawer exampleDrawer" exampleDrawer 3 None]
  by (simp add: exampleDrawer_facts)

subsection \<open>Opening and closing in sequence\<close>


lemma listenersOf_addEventListener:
  "listenersOf (addEventListener j ty l d) i ty' =
     (if i = j \<and> ty' = ty \<and> l \<notin> set (listenersOf d j ty) \<and> j \<in> set (ids d)
      then listenersOf d i ty' @ [l] else listenersOf d i ty')"
  by (auto simp: listenersOf_nodeOf setters_def nodeOf_modify in_ids_iff image_iff split: option.splits)

lemma listenersOf_removeEventListener:
  "listenersOf (removeEventListener j ty l d) i ty' =
     (if i = j \<and> ty' = ty then filter (\<lambda>x. x \<noteq> l) (listenersOf d i ty') else listenersOf d i ty')"
  by (auto simp: listenersOf_nodeOf setters_def nodeOf_modify filter_map comp_def
      intro!: arg_cong [where f = "map snd"] filter_cong split: option.splits)

lemma getDetailsElement_None [simp]: "getDetailsElement s None = details_ref s"
  by (simp add: getDetailsElement_def)

text \<open>\<open>open()\<close> in the Closed state.\<close>

lemma open_closed:
  assumes "closedState s w sm k r"
  shows "\<exists>s'. open_drawer s None = Inr s'
          \<and> openedState s' w sm k r
          \<and> details_ref s' = details_ref s
          \<and> body s' = body s
          \<and> frameCallbacks s' = [OpenFrame (details_ref s) (Some r)]
          \<and> animationCallbacks s' = []
          \<and> boundBackdropClick s' = Some (CloseFn (nextFn s))
          \<and> (\<forall>c. querySelector (doc s) r (Class ''size-guide-drawer__close-button'') = Some c \<longrightarrow>
                boundCloseClick s' = Some (CloseFn (Suc (nextFn s)))
                \<and> (\<forall>i. listenersOf (doc s') i ''click'' =
                      (if i = c \<and> CloseFn (Suc (nextFn s)) \<notin> set (listenersOf (doc s) c ''click'')
                       then (if i = k \<and> CloseFn (nextFn s) \<notin> set (listenersOf (doc s) k ''click'')
                             then listenersOf (doc s) i ''click'' @ [CloseFn (nextFn s)]
                             else listenersOf (doc s) i ''click'') @ [CloseFn (Suc (nextFn s))]
                       else (if i = k \<and> CloseFn (nextFn s) \<notin> set (listenersOf (doc s) k ''click'')
                             then listenersOf (doc s) i ''click'' @ [CloseFn (nextFn s)]
                             else listenersOf (doc s) i ''click''))))"
proof -
  let ?dd = "details_ref s"
  let ?D0 = "setStyle (eid (doc s)) ''overflow'' ''hidden''
               (setAttribute ?dd ''open'' [] (setAttribute sm ''aria-expanded'' ''true'' (doc s)))"
  let ?D1 = "setStyle w ''pointer-events'' ''auto'' ?D0"
  let ?D4 = "move w r (move w k ?D1)"
  have cs: "closedDoc (doc s) ?dd w sm k r" "drawerWrapper s = Some w"
    "frameCallbacks s = []" "animationCallbacks s = []"
    using assms by (simp_all add: closedState_def)
  have c1: "closedDoc ?D1 ?dd w sm k r" using cs(1) by simp
  note rl = relocation [OF c1]
  have q: "querySelector (doc s) ?dd (Tag ''summary'') = Some sm"
    "querySelector (doc s) ?dd (Class ''size-guide-drawer__backdrop'') = Some k"
    "querySelector (doc s) ?dd (Class ''size-guide-drawer'') = Some r"
    using cs(1) by (simp_all add: closedDoc_def querySelector_hd)
  have a1: "appendChild w (Some k) ?D1 = Inr (move w k ?D1)"
    by (rule appendChild_move [OF rl(1)])
  have a2: "appendChild w (Some r) (move w k ?D1) = Inr ?D4"
    by (rule appendChild_move [OF rl(2)])
  have qr: "querySelector ?D4 r sel = querySelector (doc s) r sel" if "plain sel" for sel
    using that by (simp add: rl(7))
  have ls: "listenersOf ?D4 i ty = listenersOf (doc s) i ty" for i ty
    by (simp add: listenersOf_nodeOf rl(6)) (simp add: listenersOf_nodeOf [symmetric])
  have kin: "k \<in> set (ids ?D4)"
    using querySelector_in_ids [OF q(2)] by (simp add: rl(5))
  have o4: "openedDoc ?D4 ?dd w sm k r" by (rule rl(3))
  show ?thesis
  proof (cases "querySelector (doc s) r (Class ''size-guide-drawer__close-button'')")
    case None
    then show ?thesis
      using o4 
      by (simp add: open_drawer_def q cs a1 a2 relocate_def qr Let_def requestAnimationFrame_def
            openedState_def body_def rl(4))
  next
    case (Some c)
    have cin: "c \<in> set (ids ?D4)"
      using querySelector_in_ids [OF Some] by (simp add: rl(5))
    have ck: "c \<noteq> k" using rl(8) [of "Class ''size-guide-drawer__close-button''" c] Some by simp
    show ?thesis
      using o4 ck
      by (simp add: open_drawer_def q cs a1 a2 relocate_def qr Let_def requestAnimationFrame_def
            openedState_def body_def rl(4) Some listenersOf_addEventListener ls kin cin)
  qed
qed


lemma prune_modify: "prune c (modify j f t) = modify j f (prune c t)"
proof (induction t)
  case (Element i q ks)
  have "filter (\<lambda>k. eid k \<noteq> c) (map (modify j f) ks) = map (modify j f) (filter (\<lambda>k. eid k \<noteq> c) ks)"
    by (simp add: filter_map comp_def)
  moreover have "map (prune c) (map (modify j f) (filter (\<lambda>k. eid k \<noteq> c) ks))
               = map (modify j f) (map (prune c) (filter (\<lambda>k. eid k \<noteq> c) ks))"
    using Element.IH by simp
  ultimately show ?case by simp
qed

lemma attach_modify: "attach p (modify j f C) (modify j f t) = modify j f (attach p C t)"
  by (induction t) simp

lemma move_modify: "move p c (modify j f d) = modify j f (move p c d)"
  by (cases "getElement d c") (simp_all add: move_def getElement_modify prune_modify attach_modify)

lemma modify_id: "modify j (\<lambda>p. p) t = t"
  by (induction t) (simp add: map_idI)

lemma onlyListeners_examples [simp]:
  "onlyListeners (\<lambda>p. p)"
  "onlyListeners (\<lambda>p. p\<lparr>listeners := g p\<rparr>)"
proof -
  have "\<exists>ls. p = p\<lparr>listeners := ls\<rparr>" for p :: node
    by (rule exI [where x = "listeners p"]) simp
  then show "onlyListeners (\<lambda>p. p)" by (simp add: onlyListeners_def)
  show "onlyListeners (\<lambda>p. p\<lparr>listeners := g p\<rparr>)" by (auto simp: onlyListeners_def)
qed

lemma onlyListeners_fields:
  assumes "onlyListeners f"
  shows "attributes (f p) = attributes p" and "classList (f p) = classList p"
    and "inlineStyle (f p) = inlineStyle p" and "tagName (f p) = tagName p"
proof -
  obtain ls where "f p = p\<lparr>listeners := ls\<rparr>" using assms by (auto simp: onlyListeners_def)
  then show "attributes (f p) = attributes p" and "classList (f p) = classList p"
    and "inlineStyle (f p) = inlineStyle p" and "tagName (f p) = tagName p"
    by simp_all
qed

lemma matches_onlyListeners: "onlyListeners f \<Longrightarrow> matches sel (f p) = matches sel p"
  by (induction sel) (simp_all add: onlyListeners_fields)

lemma getters_onlyListeners [simp]:
  assumes "onlyListeners f"
  shows "getAttribute (modify j f d) i a = getAttribute d i a"
    and "hasClass (modify j f d) i c = hasClass d i c"
    and "getStyle (modify j f d) i k = getStyle d i k"
    and "querySelector (modify j f d) i sel = querySelector d i sel"
    and "querySelectorAll (modify j f d) i sel = querySelectorAll d i sel"
  by (auto simp: getAttribute_nodeOf hasClass_nodeOf getStyle_nodeOf nodeOf_modify
        onlyListeners_fields [OF assms] matches_onlyListeners [OF assms]
        querySelector_modify querySelectorAll_modify split: option.splits)

lemma docs_onlyListeners [simp]:
  assumes "onlyListeners f"
  shows "openedDoc (modify j f d) dd w sm k r = openedDoc d dd w sm k r"
    and "closedDoc (modify j f d) dd w sm k r = closedDoc d dd w sm k r"
  by (simp_all add: openedDoc_def closedDoc_def assms)


lemma opened_after_frame:
  assumes "openedState s w sm k r" and "runCallback s (OpenFrame dd dr) = Inr s'"
  shows "openedState s' w sm k r" and "details_ref s' = details_ref s" and "body s' = body s"
    and "frameCallbacks s' = frameCallbacks s"
    and "animationCallbacks s' = animationCallbacks s @ [(orElse dr dd, OpenTrapFocus dd)]"
  using assms
  by (auto simp: openedState_def onAnimationEnd_def body_def Let_def)

lemma opened_after_trap:
  assumes "runCallback s (OpenTrapFocus dd) = Inr s'"
  shows "doc s' = doc s" and "details_ref s' = details_ref s" and "drawerWrapper s' = drawerWrapper s"
    and "frameCallbacks s' = frameCallbacks s" and "animationCallbacks s' = animationCallbacks s"
  using assms by (auto simp: trapFocus_def)

lemma opened_after_close:
  assumes "openedState s w sm k r"
  shows "openedState (close_drawer s) w sm k r"
    and "animationCallbacks (close_drawer s)
           = animationCallbacks s @ [(r, CloseFinish (details_ref s) (Some r) (Some k))]"
    and "getStyle (doc (close_drawer s)) (body s) ''overflow'' = []"
proof -
  have o: "openedDoc (doc s) (details_ref s) w sm k r" "drawerWrapper s = Some w"
    using assms by (simp_all add: openedState_def)
  have q: "querySelector (doc s) (details_ref s) (Tag ''summary'') = Some sm"
    "querySelector (doc s) w (Class ''size-guide-drawer__backdrop'') = Some k"
    "querySelector (doc s) w (Class ''size-guide-drawer'') = Some r"
    using o(1) by (simp_all add: openedDoc_def)
  show "openedState (close_drawer s) w sm k r"
    using o by (simp add: openedState_def close_drawer_def close_details_doc close_details_fields q)
  show "animationCallbacks (close_drawer s)
           = animationCallbacks s @ [(r, CloseFinish (details_ref s) (Some r) (Some k))]"
    by (simp add: close_drawer_def close_details_def onAnimationEnd_def Let_def o(2) q orElse_def)
  show "getStyle (doc (close_drawer s)) (body s) ''overflow'' = []"
    by (simp add: close_drawer_def close_details_doc getter_simps body_def split: option.splits)
qed

text \<open>The close continuation in the Open state.\<close>

lemma finish_opened:
  assumes "openedState s w sm k r"
  shows "\<exists>s'. closeFinish s (details_ref s) (Some r) (Some k) = Inr s'
          \<and> r \<in> set (childIds (doc s') (details_ref s))
          \<and> k \<in> set (childIds (doc s') (details_ref s))
          \<and> childIds (doc s') w = []
          \<and> body s' = body s
          \<and> getStyle (doc s') (body s) ''overflow'' = getStyle (doc s) (body s) ''overflow''
          \<and> getStyle (doc s') w ''pointer-events'' = ''none''
          \<and> \<not> hasAttribute (doc s') (details_ref s) ''open''
          \<and> \<not> hasClass (doc s') (details_ref s) ''menu-open''
          \<and> getAttribute (doc s') sm ''aria-expanded'' = Some ''false''
          \<and> boundBackdropClick s' = None \<and> boundCloseClick s' = None \<and> focusTrap s' = None
          \<and> frameCallbacks s' = frameCallbacks s \<and> animationCallbacks s' = animationCallbacks s"
proof -
  let ?dd = "details_ref s"
  have o: "openedDoc (doc s) ?dd w sm k r" "drawerWrapper s = Some w"
    using assms by (simp_all add: openedState_def)
  obtain j1 f1 where d1: "(case querySelector (doc s) r (Class ''size-guide-drawer__close-button'') of
                                None \<Rightarrow> doc s
                              | Some closeButton \<Rightarrow>
                                  (case boundCloseClick s of
                                     None \<Rightarrow> doc s
                                   | Some f \<Rightarrow> removeEventListener closeButton ''click'' f (doc s)))
                            = modify j1 f1 (doc s)" "onlyListeners f1"
  proof (cases "querySelector (doc s) r (Class ''size-guide-drawer__close-button'')")
    case None
    then show ?thesis using that [of 0 "\<lambda>p. p"] by (simp add: modify_id)
  next
    case (Some c)
    show ?thesis
    proof (cases "boundCloseClick s")
      case None
      with Some show ?thesis using that [of 0 "\<lambda>p. p"] by (simp add: modify_id)
    next
      case (Some f)
      with \<open>querySelector (doc s) r (Class ''size-guide-drawer__close-button'') = Some c\<close>
      show ?thesis
        using that [of c "\<lambda>p. p\<lparr>listeners := filter (\<lambda>x. x \<noteq> (''click'', f)) (listeners p)\<rparr>"]
        by (simp add: removeEventListener_def)
    qed
  qed
  let ?m1 = "move ?dd r (doc s)"
  obtain j2 f2 where d2: "(case boundBackdropClick s of
                             None \<Rightarrow> modify j1 f1 ?m1
                           | Some f \<Rightarrow> removeEventListener k ''click'' f (modify j1 f1 ?m1))
                          = modify j2 f2 (modify j1 f1 ?m1)" "onlyListeners f2"
  proof (cases "boundBackdropClick s")
    case None
    then show ?thesis using that [of 0 "\<lambda>p. p"] by (simp add: modify_id)
  next
    case (Some f)
    then show ?thesis
      using that [of k "\<lambda>p. p\<lparr>listeners := filter (\<lambda>x. x \<noteq> (''click'', f)) (listeners p)\<rparr>"]
      by (simp add: removeEventListener_def)
  qed
  note rs = restoration [OF o(1)]
  let ?m2 = "move ?dd k ?m1"
  have a1: "appendChild ?dd (Some r) (modify j1 f1 (doc s)) = Inr (modify j1 f1 ?m1)"
    using appendChild_move [of "modify j1 f1 (doc s)" ?dd r] rs(1) by (simp add: move_modify)
  have a2: "appendChild ?dd (Some k) (modify j2 f2 (modify j1 f1 ?m1)) = Inr (modify j2 f2 (modify j1 f1 ?m2))"
    using appendChild_move [of "modify j2 f2 (modify j1 f1 ?m1)" ?dd k] rs(2) by (simp add: move_modify)
  let ?d3 = "setStyle w ''pointer-events'' ''none'' (modify j2 f2 (modify j1 f1 ?m2))"
  have res: "closeFinish s ?dd (Some r) (Some k)
           = Inr (removeTrapFocus (s\<lparr>boundCloseClick := None, boundBackdropClick := None, doc := reset ?dd ?d3\<rparr>))"
    by (simp add: closeFinish_def d1 a1 d2 a2 o(2) Let_def cong: option.case_cong)
  have gm: "getAttribute ?m2 i a = getAttribute (doc s) i a"
    "hasClass ?m2 i c = hasClass (doc s) i c"
    "getStyle ?m2 i st = getStyle (doc s) i st" for i a c st
    by (simp_all add: getAttribute_nodeOf hasClass_nodeOf getStyle_nodeOf rs(6))
  have q: "querySelector (doc s) ?dd (Tag ''summary'') = Some sm"
    using o(1) by (simp add: openedDoc_def)
  have ins: "sm \<in> set (ids ?m2)" "w \<in> set (ids ?m2)"
    using querySelector_in_ids [OF q] o(1) child_subtree(5) [of "doc s" k w]
    by (simp_all add: rs(5) openedDoc_def)
  have rdoc: "reset ?dd ?d3 = setAttribute sm ''aria-expanded'' ''false''
                 (removeAttribute ?dd ''open'' (classList_remove ?dd ''menu-open'' ?d3))"
    by (simp add: reset_def Let_def d1(2) d2(2) rs(9))
  show ?thesis
    unfolding res
    by (simp add: removeTrapFocus_def body_def rdoc rs(4) rs(7) rs(8) d1(2) d2(2) gm getter_simps
          setStyle_def [symmetric] ins)
qed

text \<open>
  Claim C1. From the Closed state (the summary, then the backdrop and the drawer panel as
  children of the details element among distinct identities, an empty wrapper under the
  body, no pending callback), the cycle \<open>open()\<close>, animation frame, end of the open
  animation, \<open>close()\<close>, end of the close animation runs without an exception, and after it
  the drawer panel and the backdrop are children of the details element again, the wrapper
  is empty, the body's overflow style is the empty string, the details element has neither
  the attribute \<open>open\<close> nor the class \<open>menu-open\<close>, the summary has
  \<open>aria-expanded = false\<close>, and no callback is pending.
\<close>

theorem drawer_cycle_restores:
  assumes "closedState s w sm k r"
  shows "\<exists>s'. run s [Open None, AnimationFrame, AnimationEnd 0, Close, AnimationEnd 0] = Inr s'
          \<and> r \<in> set (childIds (doc s') (details_ref s'))
          \<and> k \<in> set (childIds (doc s') (details_ref s'))
          \<and> childIds (doc s') w = []
          \<and> getStyle (doc s') (body s') ''overflow'' = []
          \<and> \<not> hasAttribute (doc s') (details_ref s') ''open''
          \<and> \<not> hasClass (doc s') (details_ref s') ''menu-open''
          \<and> getAttribute (doc s') sm ''aria-expanded'' = Some ''false''
          \<and> details_ref s' = details_ref s
          \<and> frameCallbacks s' = [] \<and> animationCallbacks s' = []"
proof -
  let ?dd = "details_ref s"
  obtain s1 where s1: "open_drawer s None = Inr s1" "openedState s1 w sm k r"
    "details_ref s1 = ?dd" "body s1 = body s"
    "frameCallbacks s1 = [OpenFrame ?dd (Some r)]" "animationCallbacks s1 = []"
    using open_closed [OF assms] by blast
  obtain s2 where s2: "runCallback (s1\<lparr>frameCallbacks := []\<rparr>) (OpenFrame ?dd (Some r)) = Inr s2"
    by (simp add: Let_def)
  have o1: "openedState (s1\<lparr>frameCallbacks := []\<rparr>) w sm k r"
    using s1(2) by (simp add: openedState_def)
  note f2 = opened_after_frame [OF o1 s2]
  have e2: "step s1 AnimationFrame = Inr s2" using s2 by (simp add: s1(5))
  have a2: "animationCallbacks s2 = [(r, OpenTrapFocus ?dd)]"
    using f2(5) by (simp add: s1(6) orElse_def)
  obtain s3 where s3: "runCallback (s2\<lparr>animationCallbacks := []\<rparr>) (OpenTrapFocus ?dd) = Inr s3"
    by simp
  note f3 = opened_after_trap [OF s3]
  have e3: "step s2 (AnimationEnd 0) = Inr s3" using s3 by (simp add: a2)
  have o3: "openedState s3 w sm k r"
    using f2(1) f3(1,2,3) by (simp add: openedState_def)
  have d3: "details_ref s3 = ?dd" "body s3 = body s" "frameCallbacks s3 = []" "animationCallbacks s3 = []"
    using f3 f2(2,3,4) s1(3,4) by (simp_all add: body_def)
  let ?s4 = "close_drawer s3"
  note f4 = opened_after_close [OF o3]
  have d4: "details_ref ?s4 = ?dd" "body ?s4 = body s" "frameCallbacks ?s4 = []"
    "animationCallbacks ?s4 = [(r, CloseFinish ?dd (Some r) (Some k))]"
    using f4(2) d3 by (simp_all add: close_drawer_def close_details_fields)
  let ?s4' = "?s4\<lparr>animationCallbacks := []\<rparr>"
  have o4: "openedState ?s4' w sm k r" using f4(1) by (simp add: openedState_def)
  have d4': "details_ref ?s4' = ?dd" "body ?s4' = body s" using d4(1,2) by (simp_all add: body_def)
  obtain s5 where s5: "closeFinish ?s4' ?dd (Some r) (Some k) = Inr s5"
    and f5: "r \<in> set (childIds (doc s5) ?dd)" "k \<in> set (childIds (doc s5) ?dd)"
      "childIds (doc s5) w = []" "body s5 = body s"
      "getStyle (doc s5) (body s) ''overflow'' = getStyle (doc ?s4') (body s) ''overflow''"
      "\<not> hasAttribute (doc s5) ?dd ''open''" "\<not> hasClass (doc s5) ?dd ''menu-open''"
      "getAttribute (doc s5) sm ''aria-expanded'' = Some ''false''"
      "frameCallbacks s5 = frameCallbacks ?s4'" "animationCallbacks s5 = animationCallbacks ?s4'"
    using finish_opened [OF o4] unfolding d4' by blast
  have d5: "details_ref s5 = ?dd"
    using s5 by (auto simp: closeFinish_def removeTrapFocus_def Let_def d4(1) split: option.splits sum.splits)
  have e5: "step ?s4 (AnimationEnd 0) = Inr s5" using s5 by (simp add: d4(4))
  have ov: "getStyle (doc s5) (body s5) ''overflow'' = []"
    using f5(4,5) f4(3) d3(2) by simp
  have "run s [Open None, AnimationFrame, AnimationEnd 0, Close, AnimationEnd 0] = Inr s5"
    using s1(1) e2 e3 e5 by simp
  then show ?thesis
    using f5 ov d5 d4(3) by simp
qed


lemma exampleDrawer_doc:
  "doc exampleDrawer =
     Element 0 (mkNode ''body'' [] [])
       [Element 2 ((mkNode ''size-guide-drawer'' [] [])\<lparr>listeners := [(''keyup'', OnKeyUp)]\<rparr>)
          [Element 3 (mkNode ''details'' [] [])
             [Element 4 (mkNode ''summary'' [] [(''aria-expanded'', ''false'')]) [],
              Element 5 (mkNode ''div'' [''size-guide-drawer__backdrop''] []) [],
              Element 6 (mkNode ''div'' [''size-guide-drawer''] [])
                [Element 7 (mkNode ''button'' [''size-guide-drawer__close-button''] []) [],
                 Element 8 (mkNode ''table'' [] []) []]]],
        Element 9 wrapperNode []]"
  by (simp add: exampleDrawer_def connectedCallback_def createDrawerWrapper_def newDrawer_def
        drawerPage_def body_def mkNode_def addEventListener_def)

lemma exampleDrawer_closed: "closedState exampleDrawer 9 4 5 6"
  by (simp add: closedState_def closedDoc_def exampleDrawer_facts exampleDrawer_doc
        ids_def childIds_def subtreeIds_def getElement_def querySelector_def querySelectorAll_def
        firstMatch_def descendants_def mkNode_def wrapperNode_def)

theorem drawer_cycle_restores_witness:
  "closedState exampleDrawer 9 4 5 6
   \<and> (\<exists>s'. run exampleDrawer [Open None, AnimationFrame, AnimationEnd 0, Close, AnimationEnd 0] = Inr s'
          \<and> 6 \<in> set (childIds (doc s') 3) \<and> 5 \<in> set (childIds (doc s') 3)
          \<and> childIds (doc s') 9 = []
          \<and> getStyle (doc s') (body s') ''overflow'' = []
          \<and> \<not> hasAttribute (doc s') 3 ''open''
          \<and> \<not> hasClass (doc s') 3 ''menu-open''
          \<and> getAttribute (doc s') 4 ''aria-expanded'' = Some ''false'')"
  using drawer_cycle_restores [OF exampleDrawer_closed] exampleDrawer_closed
  by (auto simp: exampleDrawer_facts)

text \<open>
  Outside the cycle of the theorem above: when \<open>close()\<close> and the end of its animation come
  before the animation frame of \<open>open()\<close>, the frame callback adds \<open>menu-open\<close> to the
  details element and the wrapper after the reset.
\<close>

lemma close_before_frame_example:
  "\<exists>s'. run exampleDrawer [Open None, Close, AnimationEnd 0, AnimationFrame, AnimationEnd 0] = Inr s'
        \<and> childIds (doc s') 3 = [4, 6, 5] \<and> childIds (doc s') 9 = []
        \<and> hasClass (doc s') 3 ''menu-open'' \<and> hasClass (doc s') 9 ''menu-open''
        \<and> \<not> hasAttribute (doc s') 3 ''open''"
  by (simp add: exampleDrawer_def connectedCallback_def createDrawerWrapper_def newDrawer_def
        drawerPage_def body_def mkNode_def wrapperNode_def setters_def
        querySelector_def querySelectorAll_def getElement_def firstMatch_def descendants_def
        getDetailsElement_def open_drawer_def close_drawer_def close_details_def closeFinish_def
        relocate_def appendChild_def ids_def
        requestAnimationFrame_def onAnimationEnd_def trapFocus_def removeTrapFocus_def reset_def
        orElse_def childIds_def hasClass_def hasAttribute_def getAttribute_def Let_def
        cong: option.case_cong)

lemma run_append:
  "run s (xs @ ys) = (case run s xs of Inl e \<Rightarrow> Inl e | Inr s' \<Rightarrow> run s' ys)"
  by (induction xs arbitrary: s) (auto split: sum.splits)

text \<open>\<open>open()\<close> in the Open state: the details element holds no drawer, so nothing is moved
  and no listener is attached.\<close>

lemma open_opened:
  assumes "openedState s w sm k r"
  shows "\<exists>s'. open_drawer s None = Inr s'
          \<and> (\<forall>i ty. listenersOf (doc s') i ty = listenersOf (doc s) i ty)
          \<and> boundBackdropClick s' = boundBackdropClick s \<and> boundCloseClick s' = boundCloseClick s
          \<and> details_ref s' = details_ref s"
proof -
  have o: "openedDoc (doc s) (details_ref s) w sm k r" "drawerWrapper s = Some w"
    using assms by (simp_all add: openedState_def)
  have q: "querySelector (doc s) (details_ref s) (Tag ''summary'') = Some sm"
    "querySelector (doc s) (details_ref s) (Class ''size-guide-drawer'') = None"
    using o(1) by (simp_all add: openedDoc_def querySelector_hd)
  show ?thesis
    by (simp add: open_drawer_def q o(2) Let_def requestAnimationFrame_def)
qed

lemma open_callbacks_keep_listeners:
  assumes "openedState s w sm k r"
    and "frameCallbacks s = [OpenFrame dd dr]" and "animationCallbacks s = []"
    and "mid \<in> {[], [AnimationFrame], [AnimationFrame, AnimationEnd 0]}"
  shows "\<exists>s'. run s mid = Inr s'
          \<and> openedState s' w sm k r
          \<and> (\<forall>i ty. listenersOf (doc s') i ty = listenersOf (doc s) i ty)
          \<and> boundBackdropClick s' = boundBackdropClick s \<and> boundCloseClick s' = boundCloseClick s
          \<and> details_ref s' = details_ref s"
proof -
  have o: "openedDoc (doc s) (details_ref s) w sm k r" "drawerWrapper s = Some w"
    using assms(1) by (simp_all add: openedState_def)
  from assms(4) consider "mid = []" | "mid = [AnimationFrame]" | "mid = [AnimationFrame, AnimationEnd 0]"
    by auto
  then show ?thesis
  proof cases
    case 1
    then show ?thesis using assms(1) by simp
  next
    case 2
    then show ?thesis
      using o by (simp add: assms(2) openedState_def onAnimationEnd_def Let_def)
  next
    case 3
    then show ?thesis
      using o by (simp add: assms(2,3) openedState_def onAnimationEnd_def trapFocus_def Let_def)
  qed
qed

text \<open>
  Claim C4. From the Closed state with no click listener on the backdrop and the close
  button, after \<open>open()\<close> twice with no close between them (and none, one or both of the
  callbacks of the first \<open>open()\<close> run in between), the backdrop has exactly one click
  listener and the close button exactly one, the two arrows of the first call, and a click
  on either element runs \<open>close()\<close> exactly once.
\<close>

theorem open_twice_one_handler:
  assumes "closedState s w sm k r"
    and "querySelector (doc s) r (Class ''size-guide-drawer__close-button'') = Some c"
    and "listenersOf (doc s) k ''click'' = []" and "listenersOf (doc s) c ''click'' = []"
    and "mid \<in> {[], [AnimationFrame], [AnimationFrame, AnimationEnd 0]}"
  shows "\<exists>s2. run s (Open None # mid @ [Open None]) = Inr s2
          \<and> listenersOf (doc s2) k ''click'' = [CloseFn (nextFn s)]
          \<and> listenersOf (doc s2) c ''click'' = [CloseFn (Suc (nextFn s))]
          \<and> boundBackdropClick s2 = Some (CloseFn (nextFn s))
          \<and> boundCloseClick s2 = Some (CloseFn (Suc (nextFn s)))
          \<and> step s2 (Click k) = Inr (close_drawer s2)
          \<and> step s2 (Click c) = Inr (close_drawer s2)"
proof -
  obtain s1 where s1: "open_drawer s None = Inr s1" "openedState s1 w sm k r"
    "frameCallbacks s1 = [OpenFrame (details_ref s) (Some r)]" "animationCallbacks s1 = []"
    "boundBackdropClick s1 = Some (CloseFn (nextFn s))"
    "boundCloseClick s1 = Some (CloseFn (Suc (nextFn s)))"
    and l1: "\<And>i. listenersOf (doc s1) i ''click'' =
                      (if i = c \<and> CloseFn (Suc (nextFn s)) \<notin> set (listenersOf (doc s) c ''click'')
                       then (if i = k \<and> CloseFn (nextFn s) \<notin> set (listenersOf (doc s) k ''click'')
                             then listenersOf (doc s) i ''click'' @ [CloseFn (nextFn s)]
                             else listenersOf (doc s) i ''click'') @ [CloseFn (Suc (nextFn s))]
                       else (if i = k \<and> CloseFn (nextFn s) \<notin> set (listenersOf (doc s) k ''click'')
                             then listenersOf (doc s) i ''click'' @ [CloseFn (nextFn s)]
                             else listenersOf (doc s) i ''click''))"
    using open_closed [OF assms(1)] assms(2) by blast
  have ck: "c \<noteq> k"
  proof -
    have "closedDoc (doc s) (details_ref s) w sm k r" using assms(1) by (simp add: closedState_def)
    from relocation(8) [OF this assms(2)] show ?thesis .
  qed
  have lk: "listenersOf (doc s1) k ''click'' = [CloseFn (nextFn s)]"
    and lc: "listenersOf (doc s1) c ''click'' = [CloseFn (Suc (nextFn s))]"
    using ck by (simp_all add: l1 assms(3,4))
  obtain sm1 where m: "run s1 mid = Inr sm1" "openedState sm1 w sm k r"
    "\<And>i ty. listenersOf (doc sm1) i ty = listenersOf (doc s1) i ty"
    "boundBackdropClick sm1 = boundBackdropClick s1" "boundCloseClick sm1 = boundCloseClick s1"
    using open_callbacks_keep_listeners [OF s1(2,3,4) assms(5)] by blast
  obtain s2 where s2: "open_drawer sm1 None = Inr s2"
    "\<And>i ty. listenersOf (doc s2) i ty = listenersOf (doc sm1) i ty"
    "boundBackdropClick s2 = boundBackdropClick sm1" "boundCloseClick s2 = boundCloseClick sm1"
    using open_opened [OF m(2)] by blast
  have "run s (Open None # mid @ [Open None]) = Inr s2"
    using s1(1) m(1) s2(1) by (simp add: run_append)
  then show ?thesis
    using s2 m lk lc s1(5,6) by simp
qed

theorem open_twice_one_handler_witness:
  "closedState exampleDrawer 9 4 5 6
   \<and> querySelector (doc exampleDrawer) 6 (Class ''size-guide-drawer__close-button'') = Some 7
   \<and> listenersOf (doc exampleDrawer) 5 ''click'' = [] \<and> listenersOf (doc exampleDrawer) 7 ''click'' = []
   \<and> (\<exists>s2. run exampleDrawer [Open None, AnimationFrame, AnimationEnd 0, Open None] = Inr s2
          \<and> listenersOf (doc s2) 5 ''click'' = [CloseFn 0]
          \<and> listenersOf (doc s2) 7 ''click'' = [CloseFn 1]
          \<and> step s2 (Click 5) = Inr (close_drawer s2)
          \<and> step s2 (Click 7) = Inr (close_drawer s2))"
proof -
  have h: "querySelector (doc exampleDrawer) 6 (Class ''size-guide-drawer__close-button'') = Some 7"
    "listenersOf (doc exampleDrawer) 5 ''click'' = []" "listenersOf (doc exampleDrawer) 7 ''click'' = []"
    "nextFn exampleDrawer = 0"
    by (simp_all add: exampleDrawer_doc querySelector_def getElement_def firstMatch_def descendants_def
          listenersOf_def mkNode_def)
       (simp add: exampleDrawer_def connectedCallback_def createDrawerWrapper_def newDrawer_def)
  have m: "[AnimationFrame, AnimationEnd 0] \<in> {[], [AnimationFrame], [AnimationFrame, AnimationEnd 0]}"
    by simp
  show ?thesis
    using open_twice_one_handler [OF exampleDrawer_closed h(1,2,3) m] exampleDrawer_closed h
    by auto
qed

end
